theory Spec2Isabelle
  imports Complex_Main "HOL-Library.AList" "HOL-Library.Sublist" "HOL-Library.Multiset"
    "HOL-Library.Log_Nat"
begin

section \<open>Apriori frequent-itemset miner and rule generator (system.py)\<close>

text \<open>
  Data model.
  \<^item> An item is a Python string; only equality and the order used by \<^verbatim>\<open>list.sort\<close> matter,
    so items are any linearly ordered type.
  \<^item> A basket is a Python \<^verbatim>\<open>set\<close>: it is modelled by the list of its elements in the
    order in which Python iterates over it (each element once, hence \<open>distinct\<close>).
  \<^item> An itemset is a Python \<^verbatim>\<open>frozenset\<close> used as a dictionary key: it is modelled by
    its canonical form, the strictly increasing list of its elements, so that equality of
    keys is equality of sets.
  \<^item> A \<^verbatim>\<open>dict\<close> is an association list with distinct keys in insertion order;
    a \<^verbatim>\<open>set\<close> of frozensets is a duplicate-free list.
  \<^item> Supports, confidences and thresholds are Python floats (IEEE 754 binary64). A finite
    float is modelled by the rational number that it denotes, and comparisons of floats are
    comparisons of these rationals. A division \<^verbatim>\<open>a / b\<close> (of two ints in the miner, of
    two floats in the rule generator) returns the double nearest to the quotient: it is
    modelled as \<open>rnd (a / b)\<close>, where the rounding \<open>rnd\<close> is a parameter of every function
    that divides. The program is the instance \<open>rnd = round_double\<close>, defined below; what
    is proved for every \<open>rnd\<close> holds for it, and for the exact quotient (\<open>rnd\<close> the
    identity) as well.
  \<^item> A \<^verbatim>\<open>while\<close> loop is a partial function into \<open>option\<close>: \<open>None\<close> means that
    the loop does not return.
  \<^item> An exception is a value \<open>Inl e\<close> of the result; \<open>Inr\<close> is a normal return.

  Python leaves the iteration order of a \<^verbatim>\<open>set\<close> open. The model iterates over a
  frozenset in increasing order and over a set of frozensets in insertion order; the
  properties proved below are about the table as a mapping and about the rules as a set,
  which do not depend on that order (nor on the order of the items inside a basket, which
  is arbitrary in the model). The functions \<^verbatim>\<open>load_dataset\<close>, \<^verbatim>\<open>write_output\<close> and
  \<^verbatim>\<open>main\<close> only read and write files and are not modelled.
\<close>

type_synonym 'a basket = "'a list"
type_synonym 'a itemset = "'a list"
type_synonym ('k, 'v) dict = "('k \<times> 'v) list"

datatype error = ZeroDivisionError | KeyError

text \<open>\<^verbatim>\<open>frozenset(xs)\<close>: the canonical form of the set of elements of \<open>xs\<close>.\<close>

definition frozenset :: "'a::linorder list \<Rightarrow> 'a itemset" where
  "frozenset xs = sort (remdups xs)"

text \<open>\<^verbatim>\<open>a | b\<close> on frozensets.\<close>

definition fs_union :: "'a::linorder itemset \<Rightarrow> 'a itemset \<Rightarrow> 'a itemset" where
  "fs_union a b = frozenset (a @ b)"

text \<open>\<^verbatim>\<open>a.issubset(b)\<close>.\<close>

definition issubset :: "'a list \<Rightarrow> 'a list \<Rightarrow> bool" where
  "issubset a b = list_all (\<lambda>x. x \<in> set b) a"

text \<open>\<^verbatim>\<open>key in d\<close> for a dict.\<close>

definition contains :: "('k, 'v) dict \<Rightarrow> 'k \<Rightarrow> bool" where
  "contains d k = (map_of d k \<noteq> None)"

text \<open>\<^verbatim>\<open>d[key] += 1\<close> on a \<^verbatim>\<open>defaultdict(int)\<close>: a missing key starts at 0 and is
  appended, a present key is updated in place.\<close>

fun incr :: "'k \<Rightarrow> ('k, nat) dict \<Rightarrow> ('k, nat) dict" where
  "incr k [] = [(k, 1)]"
| "incr k ((k', c) # d) = (if k' = k then (k', c + 1) # d else (k', c) # incr k d)"

text \<open>\<^verbatim>\<open>d.update(e)\<close>: every pair of \<open>e\<close> is stored into \<open>d\<close>, in the order of \<open>e\<close>.\<close>

definition dict_update :: "('k, 'v) dict \<Rightarrow> ('k, 'v) dict \<Rightarrow> ('k, 'v) dict" where
  "dict_update d e = fold (\<lambda>(k, v) d. AList.update k v d) e d"

text \<open>\<^verbatim>\<open>s.add(x)\<close> on a set modelled by a duplicate-free list.\<close>

definition set_add :: "'a \<Rightarrow> 'a list \<Rightarrow> 'a list" where
  "set_add x s = (if x \<in> set s then s else s @ [x])"

text \<open>\<^verbatim>\<open>itertools.combinations(xs, r)\<close>: the subsequences of length \<open>r\<close>, in
  lexicographic order of positions.\<close>

definition combinations :: "'a list \<Rightarrow> nat \<Rightarrow> 'a list list" where
  "combinations xs r = filter (\<lambda>ys. length ys = r) (subseqs xs)"

subsection \<open>Float division\<close>

text \<open>
  \<open>round_double x\<close> is the double nearest to the rational \<open>x\<close>: 53 significant bits,
  ties to the even significand. For \<open>x > 0\<close> with \<open>2 powi e \<le> x < 2 powi (e + 1)\<close> the
  doubles around \<open>x\<close> are the multiples of \<open>2 powi (e - 52)\<close>. Both divisions of the
  program are correctly rounded: \<^verbatim>\<open>int / int\<close> in the miner, \<^verbatim>\<open>float / float\<close> in the
  rule generator. The range of the exponent is not bounded in the model: the quotients of
  the miner are fractions \<open>cnt / total_baskets\<close> with \<open>cnt \<le> total_baskets\<close>, far from
  the overflow and underflow thresholds of binary64; in the rule generator the model agrees
  with the program as long as the quotient of the two supports is in the normal range of
  binary64 (beyond it the program gives \<^verbatim>\<open>inf\<close> or a subnormal float).
\<close>

text \<open>The exponent \<open>e\<close> with \<open>2 powi e \<le> x < 2 powi (e + 1)\<close>, for \<open>x > 0\<close>.\<close>

definition float_expo :: "rat \<Rightarrow> int" where
  "float_expo x =
     (let (p, q) = quotient_of x; e = bitlen p - bitlen q
      in if 2 powi e \<le> x then e else e - 1)"

text \<open>The integer nearest to \<open>x\<close>, the even one of the two when \<open>x\<close> is half-way.\<close>

definition round_half_even :: "rat \<Rightarrow> int" where
  "round_half_even x =
     (let n = \<lfloor>x\<rfloor>; d = x - of_int n
      in if d < 1 / 2 then n else if 1 / 2 < d then n + 1 else if even n then n else n + 1)"

definition round_double :: "rat \<Rightarrow> rat" where
  "round_double x =
     (if x = 0 then 0
      else (let a = \<bar>x\<bar>; u = 2 powi (float_expo a - 52)
            in sgn x * (of_int (round_half_even (a / u)) * u)))"

subsection \<open>\<^verbatim>\<open>get_frequent_itemsets\<close>\<close>

text \<open>Step 1 (lines 22--25): the number of baskets holding each item. The inner loop
  runs over the items of one basket.\<close>

definition count_basket ::
  "'a::linorder basket \<Rightarrow> ('a itemset, nat) dict \<Rightarrow> ('a itemset, nat) dict" where
  "count_basket basket counts =
     fold (\<lambda>item counts. incr (frozenset [item]) counts) basket counts"

definition count_items :: "'a::linorder basket list \<Rightarrow> ('a itemset, nat) dict" where
  "count_items baskets = fold count_basket baskets []"

text \<open>
  The dict comprehension of lines 26 and 66--70:
  \<^verbatim>\<open>{itemset: cnt / total_baskets for itemset, cnt in d.items() if cnt / total_baskets >= min_sup}\<close>.
  The division is evaluated for the first pair already, and raises when
  \<^verbatim>\<open>total_baskets\<close> is 0; on an empty dict nothing is evaluated. The quotient of the
  two ints is a float: \<open>rnd\<close> of the exact quotient.
\<close>

fun frequent :: "(rat \<Rightarrow> rat) \<Rightarrow> nat \<Rightarrow> rat \<Rightarrow> ('k, nat) dict \<Rightarrow> error + ('k, rat) dict" where
  "frequent rnd total_baskets min_sup [] = Inr []"
| "frequent rnd total_baskets min_sup ((itemset, cnt) # rest) =
     (if total_baskets = 0 then Inl ZeroDivisionError
      else case frequent rnd total_baskets min_sup rest of
             Inl e \<Rightarrow> Inl e
           | Inr l \<Rightarrow>
               if rnd (of_nat cnt / of_nat total_baskets) \<ge> min_sup
               then Inr ((itemset, rnd (of_nat cnt / of_nat total_baskets)) # l)
               else Inr l)"

text \<open>Join step (lines 36--44), for one pair \<open>prev_itemsets[i]\<close>, \<open>prev_itemsets[j]\<close>.\<close>

definition join_pair ::
  "nat \<Rightarrow> 'a::linorder itemset \<Rightarrow> 'a itemset \<Rightarrow> 'a itemset list \<Rightarrow> 'a itemset list" where
  "join_pair k a b candidates =
     (let l1 = sort a; l2 = sort b in
      if take (k - 2) l1 = take (k - 2) l2 then
        (let candidate = fs_union a b in
         if length candidate = k then set_add candidate candidates else candidates)
      else candidates)"

text \<open>The two nested loops over \<open>i\<close> and \<open>j > i\<close>.\<close>

fun join :: "nat \<Rightarrow> 'a::linorder itemset list \<Rightarrow> 'a itemset list \<Rightarrow> 'a itemset list" where
  "join k [] candidates = candidates"
| "join k (a # rest) candidates = join k rest (fold (join_pair k a) rest candidates)"

text \<open>Prune step (lines 47--57); the inner loop with \<^verbatim>\<open>break\<close> computes a universal
  quantifier over the (k-1)-subsets.\<close>

definition all_subsets_exist ::
  "nat \<Rightarrow> ('a::linorder itemset, rat) dict \<Rightarrow> 'a itemset \<Rightarrow> bool" where
  "all_subsets_exist k current_L candidate =
     list_all (\<lambda>subset. contains current_L (frozenset subset)) (combinations candidate (k - 1))"

definition prune ::
  "nat \<Rightarrow> ('a::linorder itemset, rat) dict \<Rightarrow> 'a itemset list \<Rightarrow> 'a itemset list" where
  "prune k current_L candidates =
     fold (\<lambda>candidate pruned_candidates.
             if all_subsets_exist k current_L candidate
             then set_add candidate pruned_candidates else pruned_candidates)
       candidates []"

text \<open>Support counting (lines 60--64). The inner loop runs over the pruned candidates
  for one basket.\<close>

definition count_in_basket ::
  "'a itemset list \<Rightarrow> 'a basket \<Rightarrow> ('a itemset, nat) dict \<Rightarrow> ('a itemset, nat) dict" where
  "count_in_basket pruned_candidates basket candidate_count =
     fold (\<lambda>candidate candidate_count.
             if issubset candidate basket then incr candidate candidate_count
             else candidate_count)
       pruned_candidates candidate_count"

definition count_candidates ::
  "'a basket list \<Rightarrow> 'a itemset list \<Rightarrow> ('a itemset, nat) dict" where
  "count_candidates baskets pruned_candidates =
     fold (count_in_basket pruned_candidates) baskets []"

text \<open>One round of the \<^verbatim>\<open>while\<close> loop: the next \<open>current_L\<close>.\<close>

definition next_level ::
  "(rat \<Rightarrow> rat) \<Rightarrow> 'a::linorder basket list \<Rightarrow> rat \<Rightarrow> ('a itemset, rat) dict \<Rightarrow> nat \<Rightarrow>
     error + ('a itemset, rat) dict" where
  "next_level rnd baskets min_sup current_L k =
     (let prev_itemsets = map fst current_L;
          candidates = join k prev_itemsets [];
          pruned_candidates = prune k current_L candidates;
          candidate_count = count_candidates baskets pruned_candidates
      in frequent rnd (length baskets) min_sup candidate_count)"

text \<open>The \<^verbatim>\<open>while current_L:\<close> loop (lines 31--72). In the source \<open>k\<close> starts at 2, so
  \<open>k - 2\<close> and \<open>k - 1\<close> are never negative.\<close>

partial_function (option) apriori_loop ::
  "(rat \<Rightarrow> rat) \<Rightarrow> 'a::linorder basket list \<Rightarrow> rat \<Rightarrow> ('a itemset, rat) dict \<Rightarrow> nat \<Rightarrow>
     ('a itemset, rat) dict \<Rightarrow> (error + ('a itemset, rat) dict) option" where
  "apriori_loop rnd baskets min_sup current_L k support_data =
     (if current_L = [] then Some (Inr support_data)
      else case next_level rnd baskets min_sup current_L k of
             Inl e \<Rightarrow> Some (Inl e)
           | Inr new_L \<Rightarrow>
               apriori_loop rnd baskets min_sup new_L (k + 1) (dict_update support_data new_L))"

declare apriori_loop.simps [code]

definition get_frequent_itemsets ::
  "(rat \<Rightarrow> rat) \<Rightarrow> 'a::linorder basket list \<Rightarrow> rat \<Rightarrow> (error + ('a itemset, rat) dict) option" where
  "get_frequent_itemsets rnd baskets min_sup =
     (case frequent rnd (length baskets) min_sup (count_items baskets) of
        Inl e \<Rightarrow> Some (Inl e)
      | Inr L1 \<Rightarrow> apriori_loop rnd baskets min_sup L1 2 (dict_update [] L1))"

subsection \<open>\<^verbatim>\<open>generate_rules\<close>\<close>

type_synonym 'a rule = "'a itemset \<times> 'a itemset \<times> rat \<times> rat"

text \<open>The body of the loop over \<open>rhs\<close> (lines 82--86): the rules it appends.
  \<^verbatim>\<open>support_data[k]\<close> raises KeyError on a missing key, and the float division raises
  ZeroDivisionError on a zero divisor; otherwise it gives \<open>rnd\<close> of the exact quotient.\<close>

definition rule_for ::
  "(rat \<Rightarrow> rat) \<Rightarrow> ('a itemset, rat) dict \<Rightarrow> rat \<Rightarrow> 'a itemset \<Rightarrow> 'a \<Rightarrow> error + 'a rule list" where
  "rule_for rnd support_data min_conf itemset rhs =
     (let lhs = removeAll rhs itemset in
      if contains support_data lhs then
        (case map_of support_data itemset of
           None \<Rightarrow> Inl KeyError
         | Some s \<Rightarrow>
            (case map_of support_data lhs of
               None \<Rightarrow> Inl KeyError
             | Some sl \<Rightarrow>
                 if sl = 0 then Inl ZeroDivisionError
                 else (let conf = rnd (s / sl) in
                       if conf \<ge> min_conf then Inr [(lhs, [rhs], s, conf)] else Inr [])))
      else Inr [])"

text \<open>A \<^verbatim>\<open>for\<close> loop whose body appends to \<open>rules\<close> or raises.\<close>

fun for_append :: "('x \<Rightarrow> error + 'r list) \<Rightarrow> 'x list \<Rightarrow> 'r list \<Rightarrow> error + 'r list" where
  "for_append body [] rules = Inr rules"
| "for_append body (x # xs) rules =
     (case body x of Inl e \<Rightarrow> Inl e | Inr new \<Rightarrow> for_append body xs (rules @ new))"

definition rules_of_itemset ::
  "(rat \<Rightarrow> rat) \<Rightarrow> ('a itemset, rat) dict \<Rightarrow> rat \<Rightarrow> 'a itemset \<Rightarrow> error + 'a rule list" where
  "rules_of_itemset rnd support_data min_conf itemset =
     (if length itemset \<ge> 2 then for_append (rule_for rnd support_data min_conf itemset) itemset []
      else Inr [])"

definition generate_rules ::
  "(rat \<Rightarrow> rat) \<Rightarrow> ('a itemset, rat) dict \<Rightarrow> rat \<Rightarrow> error + 'a rule list" where
  "generate_rules rnd support_data min_conf =
     for_append (rules_of_itemset rnd support_data min_conf) (map fst support_data) []"

subsection \<open>The quantities the specification speaks about\<close>

text \<open>The number of baskets that are supersets of an itemset, and its support: that number
  divided by the number of baskets, as the float division gives it.\<close>

definition cnt :: "'a basket list \<Rightarrow> 'a itemset \<Rightarrow> nat" where
  "cnt baskets S = length (filter (\<lambda>basket. set S \<subseteq> set basket) baskets)"

definition support :: "(rat \<Rightarrow> rat) \<Rightarrow> 'a basket list \<Rightarrow> 'a itemset \<Rightarrow> rat" where
  "support rnd baskets S = rnd (of_nat (cnt baskets S) / of_nat (length baskets))"

text \<open>An itemset in canonical form: non-empty, strictly increasing.\<close>

definition is_itemset :: "'a::linorder itemset \<Rightarrow> bool" where
  "is_itemset S \<longleftrightarrow> S \<noteq> [] \<and> sorted S \<and> distinct S"

text \<open>Reachable by the level-wise construction: the itemset occurs in some basket, and
  every non-empty subset of it (the itemset included) meets the threshold. The subsets of a
  canonical list are its subsequences.\<close>

definition reachable ::
  "(rat \<Rightarrow> rat) \<Rightarrow> 'a basket list \<Rightarrow> rat \<Rightarrow> 'a itemset \<Rightarrow> bool" where
  "reachable rnd baskets min_sup S \<longleftrightarrow>
     0 < cnt baskets S \<and>
     list_all (\<lambda>T. T = [] \<or> min_sup \<le> support rnd baskets T) (subseqs S)"

text \<open>The reachable itemsets of size \<open>k\<close>.\<close>

definition level_set ::
  "(rat \<Rightarrow> rat) \<Rightarrow> 'a::linorder basket list \<Rightarrow> rat \<Rightarrow> nat \<Rightarrow> 'a itemset \<Rightarrow> bool" where
  "level_set rnd baskets min_sup k S \<longleftrightarrow>
     sorted S \<and> distinct S \<and> length S = k \<and> reachable rnd baskets min_sup S"

text \<open>The size of the largest basket bounds the number of rounds of the loop.\<close>

definition maxlen :: "'a basket list \<Rightarrow> nat" where
  "maxlen baskets = foldr (\<lambda>basket m. max (length basket) m) baskets 0"

text \<open>The chain of levels that the loop runs through from round \<open>k\<close> on: every level but
  the last is non-empty and gives the next one by one round; the last one is empty.\<close>

fun level_chain ::
  "(rat \<Rightarrow> rat) \<Rightarrow> 'a::linorder basket list \<Rightarrow> rat \<Rightarrow> nat \<Rightarrow> ('a itemset, rat) dict list \<Rightarrow> bool" where
  "level_chain rnd baskets min_sup k [] = False"
| "level_chain rnd baskets min_sup k [L] = (L = [])"
| "level_chain rnd baskets min_sup k (L # L' # Ls) =
     (L \<noteq> [] \<and> next_level rnd baskets min_sup L k = Inr L' \<and>
      level_chain rnd baskets min_sup (k + 1) (L' # Ls))"

text \<open>A table on which the rule generator meets a zero divisor: some itemset of the table
  with at least two items has an item whose removal leaves an antecedent that is in the
  table with support 0.\<close>

definition zero_antecedent :: "('a itemset, rat) dict \<Rightarrow> bool" where
  "zero_antecedent support_data \<longleftrightarrow>
     list_ex (\<lambda>itemset. 2 \<le> length itemset \<and>
                list_ex (\<lambda>rhs. map_of support_data (removeAll rhs itemset) = Some 0) itemset)
       (map fst support_data)"

text \<open>What the proofs use of the rounding of a division: it keeps 0 and 1, it is monotone
  on the non-negative rationals, and it is positive on the positive ones. Rounding to the
  nearest double has these properties, and so has the identity.\<close>

definition float_rounding :: "(rat \<Rightarrow> rat) \<Rightarrow> bool" where
  "float_rounding rnd \<longleftrightarrow>
     rnd 0 = 0 \<and> rnd 1 = 1 \<and> (\<forall>x y. 0 \<le> x \<and> x \<le> y \<longrightarrow> rnd x \<le> rnd y) \<and>
     (\<forall>x. 0 < x \<longrightarrow> 0 < rnd x)"

subsection \<open>Auxiliary notions for the proofs\<close>

text \<open>Adding \<open>n\<close> occurrences to an optional counter.\<close>

definition bump :: "nat \<Rightarrow> nat option \<Rightarrow> nat option" where
  "bump n c = (if n = 0 then c else Some (n + (case c of None \<Rightarrow> 0 | Some m \<Rightarrow> m)))"

text \<open>The test of the join step.\<close>

definition joinable :: "nat \<Rightarrow> 'a::linorder itemset \<Rightarrow> 'a itemset \<Rightarrow> bool" where
  "joinable k a b \<longleftrightarrow>
     take (k - 2) (sort a) = take (k - 2) (sort b) \<and> length (fs_union a b) = k"

text \<open>The invariant of the loop: \<open>current_L\<close> holds the reachable itemsets of size
  \<open>k - 1\<close>, \<open>support_data\<close> those of all smaller sizes, with their supports.\<close>

definition table_inv ::
  "(rat \<Rightarrow> rat) \<Rightarrow> 'a::linorder basket list \<Rightarrow> rat \<Rightarrow> ('a itemset, rat) dict \<Rightarrow> nat \<Rightarrow>
     ('a itemset, rat) dict \<Rightarrow> bool" where
  "table_inv rnd baskets ms L k sd \<longleftrightarrow>
     2 \<le> k \<and> (\<forall>S. map_of L S \<noteq> None \<longleftrightarrow> level_set rnd baskets ms (k - 1) S) \<and>
     distinct (map fst sd) \<and>
     (\<forall>S. map_of sd S =
        (if S \<noteq> [] \<and> length S < k \<and> level_set rnd baskets ms (length S) S
         then Some (support rnd baskets S) else None))"

text \<open>The rules that one itemset and one consequent contribute, when nothing raises.\<close>

definition rules_at ::
  "(rat \<Rightarrow> rat) \<Rightarrow> ('a itemset, rat) dict \<Rightarrow> rat \<Rightarrow> 'a itemset \<Rightarrow> 'a \<Rightarrow> 'a rule list" where
  "rules_at rnd sd mc itemset x =
     (case map_of sd (removeAll x itemset) of
        None \<Rightarrow> []
      | Some sl \<Rightarrow>
          (case map_of sd itemset of
             None \<Rightarrow> []
           | Some s \<Rightarrow> if mc \<le> rnd (s / sl) then [(removeAll x itemset, [x], s, rnd (s / sl))] else []))"

section \<open>Rounding to the nearest double\<close>

lemma bitlen_powi:
  assumes "0 < p"
  shows "(2::rat) powi (bitlen p - 1) \<le> of_int p" and "of_int p < (2::rat) powi bitlen p"
proof -
  from assms have b: "1 \<le> bitlen p" by (auto simp: bitlen_alt_def)
  from bitlen_bounds [OF assms]
  have "(2::int) ^ nat (bitlen p - 1) \<le> p" "p < 2 ^ nat (bitlen p)" by simp_all
  then have "(of_int ((2::int) ^ nat (bitlen p - 1)) :: rat) \<le> of_int p"
    "(of_int p :: rat) < of_int (2 ^ nat (bitlen p))"
    by (simp_all only: of_int_le_iff of_int_less_iff)
  with b show "(2::rat) powi (bitlen p - 1) \<le> of_int p" "of_int p < (2::rat) powi bitlen p"
    by (simp_all add: power_int_def)
qed

lemma pow2_less_D: "(2::rat) powi a < 2 powi b \<Longrightarrow> a < b"
  using power_int_increasing [of b a "2::rat"] by (cases "a < b") simp_all

lemma pow2_le_I: "a \<le> b \<Longrightarrow> (2::rat) powi a \<le> 2 powi b"
  by (rule power_int_increasing) simp_all

lemma float_expo_bounds:
  assumes "0 < x"
  shows "2 powi float_expo x \<le> x" and "x < 2 powi (float_expo x + 1)"
proof -
  obtain p q where pq: "quotient_of x = (p, q)" by (cases "quotient_of x")
  then have q: "0 < q" and x: "x = of_int p / of_int q"
    by (simp_all add: quotient_of_denom_pos quotient_of_div)
  from assms q x have p: "0 < p" by (simp add: zero_less_divide_iff)
  let ?e = "bitlen p - bitlen q"
  have e: "float_expo x = (if 2 powi ?e \<le> x then ?e else ?e - 1)"
    by (simp add: float_expo_def pq)
  have qpos: "(0::rat) < of_int q" using q by simp
  note bp = bitlen_powi [OF p] and bq = bitlen_powi [OF q]
  have "x < 2 powi bitlen p / 2 powi (bitlen q - 1)"
    unfolding x using bp(2) bq(1) qpos p
    by (intro frac_less) simp_all
  also have "\<dots> = 2 powi (bitlen p - (bitlen q - 1))"
    by (rule power_int_diff [symmetric]) simp
  also have "bitlen p - (bitlen q - 1) = ?e + 1" by simp
  finally have up: "x < 2 powi (?e + 1)" .
  have "2 powi (bitlen p - 1) / 2 powi bitlen q < x"
    unfolding x using bp(1) bq(2) qpos p
    by (intro frac_less2) simp_all
  moreover have "(2::rat) powi (bitlen p - 1) / 2 powi bitlen q = 2 powi (bitlen p - 1 - bitlen q)"
    by (rule power_int_diff [symmetric]) simp
  moreover have "bitlen p - 1 - bitlen q = ?e - 1" by simp
  ultimately have lo: "2 powi (?e - 1) < x" by simp
  show "2 powi float_expo x \<le> x"
    unfolding e using lo by auto
  show "x < 2 powi (float_expo x + 1)"
    unfolding e using up by (auto simp: not_le)
qed

lemma float_expo_unique:
  assumes "0 < x" and "2 powi e \<le> x" and "x < 2 powi (e + 1)"
  shows "float_expo x = e"
proof -
  note b = float_expo_bounds [OF assms(1)]
  have "(2::rat) powi e < 2 powi (float_expo x + 1)" using assms(2) b(2) by simp
  then have "e < float_expo x + 1" by (rule pow2_less_D)
  moreover have "(2::rat) powi float_expo x < 2 powi (e + 1)" using assms(3) b(1) by simp
  then have "float_expo x < e + 1" by (rule pow2_less_D)
  ultimately show ?thesis by simp
qed

lemma float_expo_mono:
  assumes "0 < x" and "x \<le> y"
  shows "float_expo x \<le> float_expo y"
proof -
  from assms have y: "0 < y" by simp
  have "(2::rat) powi float_expo x < 2 powi (float_expo y + 1)"
    using float_expo_bounds(1) [OF assms(1)] float_expo_bounds(2) [OF y] assms(2) by simp
  then have "float_expo x < float_expo y + 1" by (rule pow2_less_D)
  then show ?thesis by simp
qed

lemma round_half_even_cases:
  "round_half_even x = \<lfloor>x\<rfloor> \<or> round_half_even x = \<lfloor>x\<rfloor> + 1"
  by (simp add: round_half_even_def Let_def)

lemma round_half_even_of_int [simp]: "round_half_even (of_int n) = n"
  by (simp add: round_half_even_def)

lemma round_half_even_mono:
  assumes "x \<le> y"
  shows "round_half_even x \<le> round_half_even y"
proof (cases "\<lfloor>x\<rfloor> = \<lfloor>y\<rfloor>")
  case True
  with assms show ?thesis
    by (auto simp: round_half_even_def Let_def)
next
  case False
  with assms have "\<lfloor>x\<rfloor> + 1 \<le> \<lfloor>y\<rfloor>" using floor_mono [OF assms] by simp
  with round_half_even_cases [of x] round_half_even_cases [of y] show ?thesis by auto
qed

lemma round_half_even_ge: "of_int n \<le> x \<Longrightarrow> n \<le> round_half_even x"
  using round_half_even_mono [of "of_int n" x] by simp

lemma round_half_even_le: "x \<le> of_int n \<Longrightarrow> round_half_even x \<le> n"
  using round_half_even_mono [of x "of_int n"] by simp

text \<open>Rounding stays inside the binade of its argument.\<close>

lemma round_double_pos_eq:
  assumes "0 < x"
  shows "round_double x =
    of_int (round_half_even (x / 2 powi (float_expo x - 52))) * 2 powi (float_expo x - 52)"
  using assms by (simp add: round_double_def Let_def)

lemma round_double_binade:
  assumes "0 < x"
  shows "2 powi float_expo x \<le> round_double x" and "round_double x \<le> 2 powi (float_expo x + 1)"
proof -
  let ?e = "float_expo x"
  let ?u = "(2::rat) powi (?e - 52)"
  have u: "0 < ?u" by simp
  note b = float_expo_bounds [OF assms]
  have e1: "(2::rat) powi ?e = 2 ^ 52 * ?u"
    by (simp add: power_int_diff)
  have e2: "(2::rat) powi (?e + 1) = 2 ^ 53 * ?u"
    by (simp add: power_int_diff power_int_add)
  have "of_int (2 ^ 52) \<le> x / ?u"
    using b(1) u unfolding e1 by (simp add: le_divide_eq)
  then have lo: "2 ^ 52 \<le> round_half_even (x / ?u)" by (rule round_half_even_ge)
  have "x / ?u \<le> of_int (2 ^ 53)"
    using b(2) u unfolding e2 by (simp add: divide_le_eq)
  then have hi: "round_half_even (x / ?u) \<le> 2 ^ 53" by (rule round_half_even_le)
  from lo have "(2 ^ 52 :: rat) \<le> of_int (round_half_even (x / ?u))"
    by (metis of_int_le_iff of_int_numeral of_int_power)
  then show "2 powi ?e \<le> round_double x"
    unfolding round_double_pos_eq [OF assms] e1 using u by (simp add: mult_right_mono)
  from hi have "(of_int (round_half_even (x / ?u)) :: rat) \<le> 2 ^ 53"
    by (metis of_int_le_iff of_int_numeral of_int_power)
  then show "round_double x \<le> 2 powi (?e + 1)"
    unfolding round_double_pos_eq [OF assms] e2 using u by (simp add: mult_right_mono)
qed

lemma round_double_pos:
  assumes "0 < x"
  shows "0 < round_double x"
proof -
  have "(0::rat) < 2 powi float_expo x" by simp
  also have "\<dots> \<le> round_double x" using assms by (rule round_double_binade(1))
  finally show ?thesis .
qed

lemma round_double_mono_pos:
  assumes "0 < x" and "x \<le> y"
  shows "round_double x \<le> round_double y"
proof -
  from assms have y: "0 < y" by simp
  show ?thesis
  proof (cases "float_expo x = float_expo y")
    case True
    let ?u = "(2::rat) powi (float_expo y - 52)"
    have "x / ?u \<le> y / ?u" using assms(2) by (simp add: divide_right_mono)
    then have "round_half_even (x / ?u) \<le> round_half_even (y / ?u)"
      by (rule round_half_even_mono)
    then show ?thesis
      unfolding round_double_pos_eq [OF assms(1)] round_double_pos_eq [OF y] True
      by (simp add: mult_right_mono)
  next
    case False
    with float_expo_mono [OF assms] have "float_expo x + 1 \<le> float_expo y" by simp
    then have "(2::rat) powi (float_expo x + 1) \<le> 2 powi float_expo y"
      by (rule pow2_le_I)
    with round_double_binade(2) [OF assms(1)] round_double_binade(1) [OF y]
    show ?thesis by simp
  qed
qed

lemma round_double_0 [simp]: "round_double 0 = 0"
  by (simp add: round_double_def)

lemma round_double_1 [simp]: "round_double 1 = 1"
  by code_simp

lemma round_double_mono:
  assumes "0 \<le> x" and "x \<le> y"
  shows "round_double x \<le> round_double y"
proof (cases "x = 0")
  case True
  show ?thesis
  proof (cases "y = 0")
    case True
    with \<open>x = 0\<close> show ?thesis by simp
  next
    case False
    with assms True have "0 < y" by simp
    with True round_double_pos [of y] show ?thesis by simp
  qed
next
  case False
  with assms have "0 < x" by simp
  then show ?thesis using assms(2) by (rule round_double_mono_pos)
qed

lemma round_double_below_1:
  assumes "c < n" and "n \<le> 2 ^ 53"
  shows "round_double (of_nat c / of_nat n) < 1"
proof -
  have n: "0 < n" using assms(1) by simp
  have "(of_nat c :: rat) \<le> of_nat n - 1" using assms(1) by (simp add: of_nat_diff flip: of_nat_Suc)
  then have "(of_nat c / of_nat n :: rat) \<le> (of_nat n - 1) / of_nat n"
    by (simp add: divide_right_mono)
  also have "\<dots> = 1 - 1 / of_nat n" using n by (simp add: diff_divide_distrib)
  also have "\<dots> \<le> 1 - 1 / 2 ^ 53"
  proof -
    have "(of_nat n :: rat) \<le> 2 ^ 53" using assms(2)
      by (metis of_nat_le_iff of_nat_numeral of_nat_power)
    then have "(1 / 2 ^ 53 :: rat) \<le> 1 / of_nat n" using n by (simp add: frac_le)
    then show ?thesis by simp
  qed
  finally have "of_nat c / of_nat n \<le> (1 - 1 / 2 ^ 53 :: rat)" .
  then have "round_double (of_nat c / of_nat n) \<le> round_double (1 - 1 / 2 ^ 53)"
    by (intro round_double_mono) simp_all
  also have "round_double (1 - 1 / 2 ^ 53) = 1 - 1 / 2 ^ 53" by code_simp
  also have "\<dots> < (1::rat)" by simp
  finally show ?thesis .
qed

lemma float_rounding_round_double: "float_rounding round_double"
  unfolding float_rounding_def
  using round_double_mono round_double_pos by simp

lemma float_rounding_exact: "float_rounding (\<lambda>x. x)"
  by (simp add: float_rounding_def)

lemma float_roundingD:
  assumes "float_rounding rnd"
  shows "rnd 0 = 0" and "rnd 1 = 1" and "\<And>x y. 0 \<le> x \<Longrightarrow> x \<le> y \<Longrightarrow> rnd x \<le> rnd y"
    and "\<And>x. 0 < x \<Longrightarrow> 0 < rnd x"
  using assms by (simp_all add: float_rounding_def)

section \<open>Properties of the dictionary operations and of the counting loops\<close>

lemma issubset_iff: "issubset a b \<longleftrightarrow> set a \<subseteq> set b"
  by (auto simp: issubset_def list_all_iff)

lemma map_of_incr:
  "map_of (incr k d) = (map_of d)(k \<mapsto> (case map_of d k of None \<Rightarrow> 1 | Some c \<Rightarrow> c + 1))"
  by (induction k d rule: incr.induct) (auto simp: fun_eq_iff)

lemma keys_incr: "fst ` set (incr k d) = insert k (fst ` set d)"
  by (induction k d rule: incr.induct) auto

lemma distinct_incr: "distinct (map fst d) \<Longrightarrow> distinct (map fst (incr k d))"
  by (induction k d rule: incr.induct) (auto simp: keys_incr)

lemma map_of_dict_update: "map_of (dict_update d e) = map_of d ++ map_of (rev e)"
  unfolding dict_update_def
proof (induction e arbitrary: d)
  case Nil
  show ?case by simp
next
  case (Cons p e)
  obtain k v where p: "p = (k, v)" by (cases p)
  show ?case
    by (auto simp: p Cons.IH AList.update_conv' map_add_def fun_eq_iff split: option.splits)
qed

lemma distinct_dict_update:
  "distinct (map fst d) \<Longrightarrow> distinct (map fst (dict_update d e))"
  unfolding dict_update_def
  by (induction e arbitrary: d) (auto simp: AList.distinct_update)

lemma map_of_rev_distinct: "distinct (map fst e) \<Longrightarrow> map_of (rev e) = map_of e"
proof (induction e)
  case Nil
  show ?case by simp
next
  case (Cons p e)
  then have "fst p \<notin> dom (map_of e)" by (auto simp: dom_map_of_conv_image_fst)
  then show ?case using Cons
    by (cases p) (auto simp: fun_eq_iff map_add_def dom_def split: option.splits)
qed

lemma frequent_ok:
  "tot \<noteq> 0 \<or> d = [] \<Longrightarrow>
   frequent rnd tot ms d =
     Inr (map (\<lambda>(s, c). (s, rnd (of_nat c / of_nat tot)))
            (filter (\<lambda>(s, c). ms \<le> rnd (of_nat c / of_nat tot)) d))"
  by (induction d) (auto split: sum.splits)

lemma frequent_error:
  "tot = 0 \<Longrightarrow> d \<noteq> [] \<Longrightarrow> frequent rnd tot ms d = Inl ZeroDivisionError"
  by (cases d) auto

lemma map_of_filter_map:
  "distinct (map fst d) \<Longrightarrow>
   map_of (map (\<lambda>(s, c). (s, g c)) (filter (\<lambda>(s, c). P c) d)) S =
     (case map_of d S of None \<Rightarrow> None | Some c \<Rightarrow> if P c then Some (g c) else None)"
proof (induction d)
  case Nil
  show ?case by simp
next
  case (Cons p d)
  obtain s c where p: "p = (s, c)" by (cases p)
  from Cons.prems have "map_of d s = None"
    by (simp add: p map_of_eq_None_iff)
  with Cons show ?case
    by (auto simp: p split: option.splits)
qed

lemma keys_filter_map:
  "map fst (map (\<lambda>(s, c). (s, g c)) (filter (\<lambda>(s, c). P c) d)) =
     map fst (filter (\<lambda>(s, c). P c) d)"
  by (induction d) auto

lemma frequent_cases:
  obtains (ok) l where "frequent rnd tot ms d = Inr l"
      "l = map (\<lambda>(s, c). (s, rnd (of_nat c / of_nat tot)))
             (filter (\<lambda>(s, c). ms \<le> rnd (of_nat c / of_nat tot)) d)"
    | (err) "tot = 0" "d \<noteq> []" "frequent rnd tot ms d = Inl ZeroDivisionError"
  using frequent_ok [where tot = tot and d = d and ms = ms and rnd = rnd]
    frequent_error [where tot = tot and d = d and ms = ms and rnd = rnd] by blast

lemma map_of_frequent:
  assumes "frequent rnd tot ms d = Inr l" and "distinct (map fst d)"
  shows "map_of l S =
     (case map_of d S of None \<Rightarrow> None
      | Some c \<Rightarrow> if ms \<le> rnd (of_nat c / of_nat tot) then Some (rnd (of_nat c / of_nat tot)) else None)"
    and "distinct (map fst l)"
proof -
  from assms(1) have l: "l = map (\<lambda>(s, c). (s, rnd (of_nat c / of_nat tot)))
             (filter (\<lambda>(s, c). ms \<le> rnd (of_nat c / of_nat tot)) d)"
    by (cases rule: frequent_cases [of rnd tot ms d]) auto
  show "map_of l S =
     (case map_of d S of None \<Rightarrow> None
      | Some c \<Rightarrow> if ms \<le> rnd (of_nat c / of_nat tot) then Some (rnd (of_nat c / of_nat tot)) else None)"
    unfolding l using assms(2) by (rule map_of_filter_map)
  show "distinct (map fst l)"
    unfolding l keys_filter_map using assms(2) by (simp add: distinct_map_filter)
qed

lemma fold_incr:
  "distinct xs \<Longrightarrow>
   map_of (fold (\<lambda>x cc. if P x then incr x cc else cc) xs cc) S =
     (if S \<in> set xs \<and> P S then bump 1 (map_of cc S) else map_of cc S)"
  by (induction xs arbitrary: cc) (auto simp: map_of_incr bump_def split: option.splits)

lemma distinct_fold_incr:
  "distinct (map fst cc) \<Longrightarrow>
   distinct (map fst (fold (\<lambda>x cc. if P x then incr x cc else cc) xs cc))"
  by (induction xs arbitrary: cc) (auto simp: distinct_incr)

lemma keys_fold_incr:
  "fst ` set (fold (\<lambda>x cc. if P x then incr x cc else cc) xs cc) =
     fst ` set cc \<union> {x \<in> set xs. P x}"
  by (induction xs arbitrary: cc) (auto simp: keys_incr)

lemma cnt_Nil [simp]: "cnt [] S = 0"
  by (simp add: cnt_def)

lemma cnt_Cons: "cnt (b # bs) S = (if set S \<subseteq> set b then 1 else 0) + cnt bs S"
  by (simp add: cnt_def)

lemma bump_bump: "bump m (bump n c) = bump (n + m) c"
  by (auto simp: bump_def split: option.splits)

lemma bump_0 [simp]: "bump 0 c = c"
  by (simp add: bump_def)

lemma map_of_count_in_basket:
  "distinct pruned \<Longrightarrow>
   map_of (count_in_basket pruned basket cc) S =
     (if S \<in> set pruned \<and> set S \<subseteq> set basket then bump 1 (map_of cc S) else map_of cc S)"
  unfolding count_in_basket_def by (simp add: fold_incr issubset_iff)

lemma distinct_count_in_basket:
  "distinct (map fst cc) \<Longrightarrow> distinct (map fst (count_in_basket pruned basket cc))"
  unfolding count_in_basket_def by (rule distinct_fold_incr)

lemma map_of_fold_count_in_basket:
  "distinct pruned \<Longrightarrow>
   map_of (fold (count_in_basket pruned) baskets cc) S =
     (if S \<in> set pruned then bump (cnt baskets S) (map_of cc S) else map_of cc S)"
  by (induction baskets arbitrary: cc)
     (simp_all add: map_of_count_in_basket cnt_Cons bump_bump)

lemma map_of_count_candidates:
  "distinct pruned \<Longrightarrow>
   map_of (count_candidates baskets pruned) S =
     (if S \<in> set pruned \<and> 0 < cnt baskets S then Some (cnt baskets S) else None)"
  unfolding count_candidates_def
  by (simp add: map_of_fold_count_in_basket bump_def)

lemma distinct_fold_count_in_basket:
  "distinct (map fst cc) \<Longrightarrow> distinct (map fst (fold (count_in_basket pruned) baskets cc))"
  by (induction baskets arbitrary: cc) (simp_all add: distinct_count_in_basket)

lemma distinct_count_candidates: "distinct (map fst (count_candidates baskets pruned))"
  unfolding count_candidates_def by (rule distinct_fold_count_in_basket) simp

lemma count_candidates_Nil [simp]: "count_candidates [] pruned = []"
  by (simp add: count_candidates_def)

lemma frozenset_single [simp]: "frozenset [x] = [x]"
  by (simp add: frozenset_def)

lemma count_basket_alt:
  "count_basket basket cc =
   fold (\<lambda>x cc. if True then incr x cc else cc) (map (\<lambda>item. [item]) basket) cc"
  unfolding count_basket_def by (simp add: fold_map comp_def)

lemma map_of_count_basket:
  assumes "distinct basket"
  shows "map_of (count_basket basket cc) S =
     (if length S = 1 \<and> set S \<subseteq> set basket then bump 1 (map_of cc S) else map_of cc S)"
proof -
  from assms have d: "distinct (map (\<lambda>item. [item]) basket)"
    by (simp add: distinct_map inj_on_def)
  have 1: "S \<in> set (map (\<lambda>item. [item]) basket) \<longleftrightarrow> length S = 1 \<and> set S \<subseteq> set basket"
    by (cases S) auto
  show ?thesis
    unfolding count_basket_alt fold_incr [OF d] 1 by simp
qed

lemma distinct_count_basket:
  "distinct (map fst cc) \<Longrightarrow> distinct (map fst (count_basket basket cc))"
  unfolding count_basket_alt by (rule distinct_fold_incr)

lemma map_of_fold_count_basket:
  "\<forall>b \<in> set baskets. distinct b \<Longrightarrow>
   map_of (fold count_basket baskets cc) S =
     (if length S = 1 then bump (cnt baskets S) (map_of cc S) else map_of cc S)"
  by (induction baskets arbitrary: cc)
     (simp_all add: map_of_count_basket cnt_Cons bump_bump)

lemma map_of_count_items:
  "\<forall>b \<in> set baskets. distinct b \<Longrightarrow>
   map_of (count_items baskets) S =
     (if length S = 1 \<and> 0 < cnt baskets S then Some (cnt baskets S) else None)"
  unfolding count_items_def by (simp add: map_of_fold_count_basket bump_def)

lemma distinct_fold_count_basket:
  "distinct (map fst cc) \<Longrightarrow> distinct (map fst (fold count_basket baskets cc))"
  by (induction baskets arbitrary: cc) (simp_all add: distinct_count_basket)

lemma distinct_count_items: "distinct (map fst (count_items baskets))"
  unfolding count_items_def by (rule distinct_fold_count_basket) simp

lemma count_items_Nil [simp]: "count_items [] = []"
  by (simp add: count_items_def)

lemma set_set_add [simp]: "set (set_add x s) = insert x (set s)"
  by (auto simp: set_add_def)

lemma distinct_set_add [simp]: "distinct (set_add x s) = distinct s"
  by (auto simp: set_add_def)

lemma set_frozenset [simp]: "set (frozenset xs) = set xs"
  by (simp add: frozenset_def)

lemma sorted_frozenset [simp]: "sorted (frozenset xs)"
  by (simp add: frozenset_def)

lemma distinct_frozenset [simp]: "distinct (frozenset xs)"
  by (simp add: frozenset_def)

lemma frozenset_eqI:
  "sorted S \<Longrightarrow> distinct S \<Longrightarrow> set xs = set S \<Longrightarrow> frozenset xs = S"
  by (rule sorted_distinct_set_unique) simp_all

lemma frozenset_id: "sorted S \<Longrightarrow> distinct S \<Longrightarrow> frozenset S = S"
  by (rule frozenset_eqI) simp_all

lemma fs_union_commute: "fs_union a b = fs_union b a"
  unfolding fs_union_def by (rule frozenset_eqI) auto

lemma joinable_commute: "joinable k a b = joinable k b a"
  by (auto simp: joinable_def fs_union_commute)

lemma join_pair_eq:
  "join_pair k a b cands = (if joinable k a b then set_add (fs_union a b) cands else cands)"
  by (simp add: join_pair_def joinable_def Let_def)

lemma set_fold_join_pair:
  "set (fold (join_pair k a) rest cands) =
     set cands \<union> {fs_union a b | b. b \<in> set rest \<and> joinable k a b}"
  by (induction rest arbitrary: cands) (auto simp: join_pair_eq)

lemma distinct_fold_join_pair:
  "distinct cands \<Longrightarrow> distinct (fold (join_pair k a) rest cands)"
  by (induction rest arbitrary: cands) (auto simp: join_pair_eq)

lemma distinct_join: "distinct cands \<Longrightarrow> distinct (join k prev cands)"
  by (induction k prev cands rule: join.induct) (auto simp: distinct_fold_join_pair)

lemma join_mono: "set cands \<subseteq> set (join k prev cands)"
proof (induction k prev cands rule: join.induct)
  case (1 k cands)
  show ?case by simp
next
  case (2 k a rest cands)
  have "set cands \<subseteq> set (fold (join_pair k a) rest cands)"
    by (auto simp: set_fold_join_pair)
  with 2 show ?case by auto
qed

lemma join_sound:
  "set (join k prev cands) \<subseteq>
     set cands \<union> {fs_union a b | a b. a \<in> set prev \<and> b \<in> set prev \<and> joinable k a b}"
proof (induction k prev cands rule: join.induct)
  case (1 k cands)
  show ?case by simp
next
  case (2 k a rest cands)
  show ?case
  proof
    fix c assume "c \<in> set (join k (a # rest) cands)"
    then have "c \<in> set (join k rest (fold (join_pair k a) rest cands))" by simp
    with 2 have "c \<in> set (fold (join_pair k a) rest cands) \<or>
       c \<in> {fs_union a b | a b. a \<in> set rest \<and> b \<in> set rest \<and> joinable k a b}"
      by blast
    then show "c \<in> set cands \<union>
        {fs_union a' b | a' b. a' \<in> set (a # rest) \<and> b \<in> set (a # rest) \<and> joinable k a' b}"
      unfolding set_fold_join_pair by auto
  qed
qed

lemma join_complete:
  "a \<in> set prev \<Longrightarrow> b \<in> set prev \<Longrightarrow> a \<noteq> b \<Longrightarrow> joinable k a b \<Longrightarrow>
   fs_union a b \<in> set (join k prev cands)"
proof (induction k prev cands rule: join.induct)
  case (1 k cands)
  then show ?case by simp
next
  case (2 k x rest cands)
  let ?c = "fold (join_pair k x) rest cands"
  consider "a \<in> set rest" "b \<in> set rest" | "a = x" "b \<in> set rest" | "b = x" "a \<in> set rest"
    using "2.prems" by auto
  then show ?case
  proof cases
    case 1
    then show ?thesis using "2.IH" "2.prems" by simp
  next
    case 2
    then have "fs_union a b \<in> set ?c"
      using "2.prems" unfolding set_fold_join_pair by auto
    then show ?thesis using join_mono [of ?c k rest] by auto
  next
    case 3
    then have "fs_union b a \<in> set ?c"
      using "2.prems" unfolding set_fold_join_pair by (auto simp: joinable_commute)
    then show ?thesis using join_mono [of ?c k rest] by (auto simp: fs_union_commute)
  qed
qed

lemma set_fold_prune:
  "set (fold (\<lambda>candidate pruned_candidates.
             if P candidate then set_add candidate pruned_candidates else pruned_candidates)
       candidates acc) = set acc \<union> {c \<in> set candidates. P c}"
  by (induction candidates arbitrary: acc) auto

lemma distinct_fold_prune:
  "distinct acc \<Longrightarrow> distinct (fold (\<lambda>candidate pruned_candidates.
             if P candidate then set_add candidate pruned_candidates else pruned_candidates)
       candidates acc)"
  by (induction candidates arbitrary: acc) auto

lemma set_prune:
  "set (prune k L candidates) = {c \<in> set candidates. all_subsets_exist k L c}"
  unfolding prune_def by (simp add: set_fold_prune)

lemma distinct_prune: "distinct (prune k L candidates)"
  unfolding prune_def by (rule distinct_fold_prune) simp

lemma all_subsets_exist_iff:
  "all_subsets_exist k L c \<longleftrightarrow>
     (\<forall>T. subseq T c \<and> length T = k - 1 \<longrightarrow> map_of L (frozenset T) \<noteq> None)"
  by (auto simp: all_subsets_exist_def combinations_def contains_def list_all_iff)

lemma reachable_iff:
  "reachable rnd baskets ms S \<longleftrightarrow>
     0 < cnt baskets S \<and> (\<forall>T. T \<noteq> [] \<and> subseq T S \<longrightarrow> ms \<le> support rnd baskets T)"
  by (auto simp: reachable_def list_all_iff)

lemma subseq_set: "subseq T S \<Longrightarrow> set T \<subseteq> set S"
  by (induction rule: list_emb.induct) auto

lemma subseq_in_set: "subseq T S \<Longrightarrow> x \<in> set T \<Longrightarrow> x \<in> set S"
  using subseq_set by blast

lemma subseq_sorted: "subseq T S \<Longrightarrow> sorted S \<Longrightarrow> sorted T"
  by (induction rule: list_emb.induct) (auto dest: subseq_in_set)

lemma subseq_distinct: "subseq T S \<Longrightarrow> distinct S \<Longrightarrow> distinct T"
  by (induction rule: list_emb.induct) (auto dest: subseq_in_set)

lemma cnt_mono: "set T \<subseteq> set S \<Longrightarrow> cnt baskets S \<le> cnt baskets T"
  by (induction baskets) (auto simp: cnt_Cons)

lemma support_mono:
  assumes "\<And>x y. 0 \<le> x \<Longrightarrow> x \<le> y \<Longrightarrow> rnd x \<le> rnd y" and "set T \<subseteq> set S"
  shows "support rnd baskets S \<le> support rnd baskets T"
  unfolding support_def
  using cnt_mono [OF assms(2), of baskets] by (intro assms(1)) (simp_all add: divide_right_mono)

lemma reachable_subseq:
  assumes "reachable rnd baskets ms S" and "subseq T S"
  shows "reachable rnd baskets ms T"
proof -
  have "cnt baskets S \<le> cnt baskets T"
    using assms(2) by (intro cnt_mono subseq_set)
  moreover have "ms \<le> support rnd baskets U" if "U \<noteq> []" "subseq U T" for U
    using assms that subseq_order.trans [of U T S] by (auto simp: reachable_iff)
  ultimately show ?thesis using assms(1) by (auto simp: reachable_iff)
qed

lemma subseq_extend:
  "subseq T S \<Longrightarrow> length T < length S \<Longrightarrow>
   \<exists>U. subseq T U \<and> subseq U S \<and> Suc (length U) = length S"
proof (induction rule: list_emb.induct)
  case (list_emb_Nil ys)
  then obtain y ys' where "ys = y # ys'" by (cases ys) auto
  then show ?case by (intro exI [of _ ys']) auto
next
  case (list_emb_Cons xs ys y)
  show ?case
  proof (cases "length xs < length ys")
    case True
    with list_emb_Cons obtain U where "subseq xs U" "subseq U ys" "Suc (length U) = length ys"
      by blast
    then show ?thesis by (intro exI [of _ "y # U"]) auto
  next
    case False
    with list_emb_Cons have "xs = ys"
      using subseq_same_length [of xs ys] list_emb_length [of "(=)" xs ys] by auto
    then show ?thesis by (intro exI [of _ ys]) auto
  qed
next
  case (list_emb_Cons2 x y xs ys)
  then obtain U where "subseq xs U" "subseq U ys" "Suc (length U) = length ys"
    by auto
  with list_emb_Cons2 show ?case by (intro exI [of _ "y # U"]) auto
qed

lemma reachable_step:
  assumes "0 < cnt baskets S" and "ms \<le> support rnd baskets S"
    and "\<And>U. subseq U S \<Longrightarrow> Suc (length U) = length S \<Longrightarrow> reachable rnd baskets ms U"
  shows "reachable rnd baskets ms S"
  unfolding reachable_iff
proof (intro conjI allI impI)
  show "0 < cnt baskets S" by fact
next
  fix T assume T: "T \<noteq> [] \<and> subseq T S"
  show "ms \<le> support rnd baskets T"
  proof (cases "length T < length S")
    case True
    with T obtain U where "subseq T U" "subseq U S" "Suc (length U) = length S"
      using subseq_extend by blast
    with assms(3) [of U] T show ?thesis by (auto simp: reachable_iff)
  next
    case False
    with T have "T = S"
      using subseq_same_length [of T S] list_emb_length [of "(=)" T S] by auto
    with assms(2) show ?thesis by simp
  qed
qed

lemma reachable_self:
  "reachable rnd baskets ms S \<Longrightarrow> S \<noteq> [] \<Longrightarrow> 0 < cnt baskets S \<and> ms \<le> support rnd baskets S"
  by (auto simp: reachable_iff)

text \<open>What one round computes, for any previous level.\<close>

lemma map_of_next_level:
  fixes baskets :: "'a::linorder basket list"
  shows "\<exists>L'. next_level rnd baskets ms L k = Inr L' \<and> distinct (map fst L') \<and>
    (\<forall>S. map_of L' S =
       (if S \<in> set (prune k L (join k (map fst L) [])) \<and> 0 < cnt baskets S \<and>
           ms \<le> support rnd baskets S
        then Some (support rnd baskets S) else None))"
proof -
  let ?pruned = "prune k L (join k (map fst L) [])"
  let ?cc = "count_candidates baskets ?pruned"
  have nl: "next_level rnd baskets ms L k = frequent rnd (length baskets) ms ?cc"
    by (simp add: next_level_def Let_def)
  have "length baskets \<noteq> 0 \<or> ?cc = []" by (cases baskets) auto
  then obtain L' where L': "frequent rnd (length baskets) ms ?cc = Inr L'"
    by (cases rule: frequent_cases [of rnd "length baskets" ms ?cc]) auto
  note m = map_of_frequent [OF L' distinct_count_candidates]
  have "map_of L' S =
       (if S \<in> set ?pruned \<and> 0 < cnt baskets S \<and> ms \<le> support rnd baskets S
        then Some (support rnd baskets S) else None)" for S
    unfolding m(1) by (simp add: map_of_count_candidates [OF distinct_prune] support_def)
  with nl L' m(2) show ?thesis by auto
qed

lemma candidate_shape:
  assumes "S \<in> set (join k prev [])"
  shows "sorted S \<and> distinct S \<and> length S = k"
proof -
  from assms join_sound [of k prev "[]"]
  obtain a b where "S = fs_union a b" "joinable k a b" by auto
  then show ?thesis by (auto simp: joinable_def fs_union_def)
qed

lemma split_last_two:
  assumes "2 \<le> length S"
  obtains P x y where "S = P @ [x, y]"
proof -
  from assms have "S \<noteq> []" by auto
  then have 1: "S = butlast S @ [last S]" by simp
  from assms have "butlast S \<noteq> []" by (cases S) (auto split: if_splits)
  then have 2: "butlast S = butlast (butlast S) @ [last (butlast S)]" by simp
  from 1 2 have "S = (butlast (butlast S) @ [last (butlast S)]) @ [last S]" by metis
  then have "S = butlast (butlast S) @ [last (butlast S), last S]" by simp
  then show thesis by (rule that)
qed

lemma keys_of_map_of: "map_of L a \<noteq> None \<Longrightarrow> a \<in> set (map fst L)"
  by (simp add: map_of_eq_None_iff)

lemma pruned_iff_level_set:
  fixes baskets :: "'a::linorder basket list"
  assumes k: "2 \<le> k"
    and L: "\<And>S. map_of L S \<noteq> None \<longleftrightarrow> level_set rnd baskets ms (k - 1) S"
  shows "S \<in> set (prune k L (join k (map fst L) [])) \<and> 0 < cnt baskets S \<and>
           ms \<le> support rnd baskets S \<longleftrightarrow> level_set rnd baskets ms k S"
    (is "?lhs \<longleftrightarrow> ?rhs")
proof
  assume l: ?lhs
  then have cand: "S \<in> set (join k (map fst L) [])" and all: "all_subsets_exist k L S"
    by (simp_all add: set_prune)
  from candidate_shape [OF cand] have shape: "sorted S" "distinct S" "length S = k" by auto
  have sub: "reachable rnd baskets ms U" if U: "subseq U S" "Suc (length U) = length S" for U
  proof -
    have "frozenset U = U"
      using subseq_sorted [OF U(1) shape(1)] subseq_distinct [OF U(1) shape(2)]
      by (rule frozenset_id)
    moreover have "length U = k - 1" using U(2) shape by simp
    ultimately have "map_of L U \<noteq> None"
      using all U(1) by (auto simp: all_subsets_exist_iff)
    then have "level_set rnd baskets ms (k - 1) U" by (rule iffD1 [OF L])
    then show ?thesis by (simp add: level_set_def)
  qed
  have "reachable rnd baskets ms S"
  proof (rule reachable_step)
    show "0 < cnt baskets S" "ms \<le> support rnd baskets S" using l by simp_all
  qed (rule sub)
  with shape show ?rhs by (simp add: level_set_def)
next
  assume r: ?rhs
  then have shape: "sorted S" "distinct S" "length S = k" and reach: "reachable rnd baskets ms S"
    by (simp_all add: level_set_def)
  have sub: "level_set rnd baskets ms (k - 1) U" if "subseq U S" "length U = k - 1" for U
    using that subseq_sorted [OF that(1) shape(1)] subseq_distinct [OF that(1) shape(2)]
      reachable_subseq [OF reach that(1)]
    by (simp add: level_set_def)
  from k shape obtain P x y where S: "S = P @ [x, y]"
    using split_last_two [of S] by auto
  let ?a = "P @ [x]" and ?b = "P @ [y]"
  have lenP: "length P = k - 2" using S shape by auto
  have a: "subseq ?a S" "length ?a = k - 1" using S lenP k by auto
  have b: "subseq ?b S" "length ?b = k - 1" using S lenP k by (auto simp: subseq_append')
  have ab: "?a \<noteq> ?b" using shape(2) S by auto
  have sa: "sort ?a = ?a" using subseq_sorted [OF a(1) shape(1)] by (simp add: sort_key_id_if_sorted)
  have sb: "sort ?b = ?b" using subseq_sorted [OF b(1) shape(1)] by (simp add: sort_key_id_if_sorted)
  have un: "fs_union ?a ?b = S"
    unfolding fs_union_def using shape by (intro frozenset_eqI) (auto simp: S)
  have "joinable k ?a ?b"
    unfolding joinable_def sa sb un using shape lenP by simp
  moreover have "?a \<in> set (map fst L)"
    by (rule keys_of_map_of) (rule iffD2 [OF L sub [OF a]])
  moreover have "?b \<in> set (map fst L)"
    by (rule keys_of_map_of) (rule iffD2 [OF L sub [OF b]])
  ultimately have "fs_union ?a ?b \<in> set (join k (map fst L) [])"
    using ab by (intro join_complete)
  then have cand: "S \<in> set (join k (map fst L) [])" by (simp only: un)
  have "all_subsets_exist k L S"
    unfolding all_subsets_exist_iff
  proof (intro allI impI)
    fix T assume T: "subseq T S \<and> length T = k - 1"
    then have fT: "frozenset T = T"
      using subseq_sorted [of T S] subseq_distinct [of T S] shape by (intro frozenset_id) auto
    have lT: "level_set rnd baskets ms (k - 1) T" using sub [of T] T by blast
    show "map_of L (frozenset T) \<noteq> None" unfolding fT by (rule iffD2 [OF L lT])
  qed
  moreover have "S \<noteq> []" using shape k by auto
  ultimately show ?lhs
    using cand reachable_self [OF reach] by (simp add: set_prune)
qed

lemma next_level_level_set:
  fixes baskets :: "'a::linorder basket list"
  assumes "2 \<le> k"
    and "\<And>S. map_of L S \<noteq> None \<longleftrightarrow> level_set rnd baskets ms (k - 1) S"
  shows "\<exists>L'. next_level rnd baskets ms L k = Inr L' \<and> distinct (map fst L') \<and>
    (\<forall>S. map_of L' S =
       (if level_set rnd baskets ms k S then Some (support rnd baskets S) else None))"
  using map_of_next_level [of rnd baskets ms L k]
  by (simp only: pruned_iff_level_set [OF assms])

lemma maxlen_ge: "b \<in> set baskets \<Longrightarrow> length b \<le> maxlen baskets"
  unfolding maxlen_def by (induction baskets) auto

lemma cnt_pos_iff: "0 < cnt baskets S \<longleftrightarrow> (\<exists>b \<in> set baskets. set S \<subseteq> set b)"
  by (induction baskets) (auto simp: cnt_Cons)

lemma next_level_keys:
  fixes baskets :: "'a::linorder basket list"
  assumes "next_level rnd baskets ms L k = Inr L'" and "map_of L' S = Some v"
  shows "sorted S \<and> distinct S \<and> length S = k \<and> 0 < cnt baskets S \<and>
         ms \<le> support rnd baskets S \<and> v = support rnd baskets S"
proof -
  from map_of_next_level [of rnd baskets ms L k] assms(1)
  have "map_of L' S =
       (if S \<in> set (prune k L (join k (map fst L) [])) \<and> 0 < cnt baskets S \<and>
           ms \<le> support rnd baskets S
        then Some (support rnd baskets S) else None)" by auto
  with assms(2) have "S \<in> set (prune k L (join k (map fst L) []))"
    and *: "0 < cnt baskets S" "ms \<le> support rnd baskets S" "v = support rnd baskets S"
    by (auto split: if_splits)
  then have "S \<in> set (join k (map fst L) [])" by (simp add: set_prune)
  from candidate_shape [OF this] * show ?thesis by simp
qed

lemma next_level_empty:
  fixes baskets :: "'a::linorder basket list"
  assumes "next_level rnd baskets ms L k = Inr L'" and "maxlen baskets < k"
  shows "L' = []"
proof (cases L')
  case Nil
  then show ?thesis .
next
  case (Cons p rest)
  obtain S v where "p = (S, v)" by (cases p)
  with Cons have "map_of L' S = Some v" by simp
  from next_level_keys [OF assms(1) this]
  have S: "distinct S" "length S = k" "0 < cnt baskets S" by auto
  then obtain b where b: "b \<in> set baskets" "set S \<subseteq> set b"
    by (auto simp: cnt_pos_iff)
  have "length S = card (set S)" using S(1) by (simp add: distinct_card)
  also have "\<dots> \<le> card (set b)" using b(2) by (simp add: card_mono)
  also have "\<dots> \<le> length b" by (rule card_length)
  also have "\<dots> \<le> maxlen baskets" using b(1) by (rule maxlen_ge)
  finally show ?thesis using S(2) assms(2) by simp
qed

lemma next_level_total:
  fixes baskets :: "'a::linorder basket list"
  shows "\<exists>L'. next_level rnd baskets ms L k = Inr L'"
  using map_of_next_level [of rnd baskets ms L k] by blast

text \<open>An invariant rule for the loop; it also shows that the loop returns.\<close>

lemma apriori_loop_rule:
  fixes baskets :: "'a::linorder basket list"
  assumes init: "I L k sd"
    and step: "\<And>L k sd L'. I L k sd \<Longrightarrow> L \<noteq> [] \<Longrightarrow> next_level rnd baskets ms L k = Inr L' \<Longrightarrow>
                 I L' (k + 1) (dict_update sd L')"
    and final: "\<And>k sd. I [] k sd \<Longrightarrow> Q sd"
  shows "\<exists>T. apriori_loop rnd baskets ms L k sd = Some (Inr T) \<and> Q T"
  using init
proof (induction "(if L = [] then 0 else 1) + (maxlen baskets + 1 - k)"
    arbitrary: L k sd rule: less_induct)
  case less
  show ?case
  proof (cases "L = []")
    case True
    with less.prems final show ?thesis by (subst apriori_loop.simps) auto
  next
    case False
    obtain L' where L': "next_level rnd baskets ms L k = Inr L'"
      using next_level_total by blast
    have I': "I L' (k + 1) (dict_update sd L')"
      using less.prems False L' by (rule step)
    have "(if L' = [] then 0 else 1) + (maxlen baskets + 1 - (k + 1))
        < (if L = [] then 0 else 1) + (maxlen baskets + 1 - k)"
    proof (cases "maxlen baskets < k")
      case True
      with L' have "L' = []" by (rule next_level_empty)
      with False show ?thesis by simp
    next
      case False
      with \<open>L \<noteq> []\<close> show ?thesis by auto
    qed
    from less.hyps [OF this I']
    obtain T where "apriori_loop rnd baskets ms L' (k + 1) (dict_update sd L') = Some (Inr T)" "Q T"
      by blast
    with False L' show ?thesis by (subst apriori_loop.simps) auto
  qed
qed

lemma apriori_loop_returns:
  fixes baskets :: "'a::linorder basket list"
  shows "\<exists>T. apriori_loop rnd baskets ms L k sd = Some (Inr T)"
  using apriori_loop_rule [of "\<lambda>_ _ _. True" L k sd rnd baskets ms "\<lambda>_. True"] by simp

lemma reachable_single:
  "reachable rnd baskets ms [x] \<longleftrightarrow> 0 < cnt baskets [x] \<and> ms \<le> support rnd baskets [x]"
  by (auto simp: reachable_def)

lemma level_set_1:
  "level_set rnd baskets ms 1 S \<longleftrightarrow>
     length S = 1 \<and> 0 < cnt baskets S \<and> ms \<le> support rnd baskets S"
proof (cases S)
  case Nil
  then show ?thesis by (simp add: level_set_def)
next
  case (Cons x xs)
  then show ?thesis by (cases xs) (auto simp: level_set_def reachable_single)
qed

lemma first_level:
  fixes baskets :: "'a::linorder basket list"
  assumes "\<forall>b \<in> set baskets. distinct b"
  shows "\<exists>L1. frequent rnd (length baskets) ms (count_items baskets) = Inr L1 \<and>
     distinct (map fst L1) \<and>
     (\<forall>S. map_of L1 S = (if level_set rnd baskets ms 1 S then Some (support rnd baskets S) else None))"
proof -
  let ?cc = "count_items baskets"
  have "length baskets \<noteq> 0 \<or> ?cc = []" by (cases baskets) auto
  then obtain L1 where L1: "frequent rnd (length baskets) ms ?cc = Inr L1"
    by (cases rule: frequent_cases [of rnd "length baskets" ms ?cc]) auto
  note m = map_of_frequent [OF L1 distinct_count_items]
  have "map_of L1 S = (if level_set rnd baskets ms 1 S then Some (support rnd baskets S) else None)"
    for S
    unfolding m(1) level_set_1
    by (simp add: map_of_count_items [OF assms] support_def)
  with L1 m(2) show ?thesis by auto
qed

lemma first_level_total:
  fixes baskets :: "'a::linorder basket list"
  shows "\<exists>L1. frequent rnd (length baskets) ms (count_items baskets) = Inr L1"
proof -
  let ?cc = "count_items baskets"
  have "length baskets \<noteq> 0 \<or> ?cc = []" by (cases baskets) auto
  then show ?thesis
    by (cases rule: frequent_cases [of rnd "length baskets" ms ?cc]) auto
qed

lemma level_set_take:
  assumes "level_set rnd baskets ms n S" and "j \<le> n"
  shows "level_set rnd baskets ms j (take j S)"
proof -
  have sub: "subseq (take j S) S"
    by (metis append_take_drop_id prefixI prefix_imp_subseq)
  from assms have "sorted S" "distinct S" "length S = n" "reachable rnd baskets ms S"
    by (simp_all add: level_set_def)
  with assms(2) subseq_sorted [OF sub] subseq_distinct [OF sub] reachable_subseq [OF _ sub]
  show ?thesis by (simp add: level_set_def)
qed

lemma table_inv_step:
  fixes baskets :: "'a::linorder basket list"
  assumes inv: "table_inv rnd baskets ms L k sd"
    and nl: "next_level rnd baskets ms L k = Inr L'"
  shows "table_inv rnd baskets ms L' (k + 1) (dict_update sd L')"
proof -
  from inv have k: "2 \<le> k"
    and L: "\<And>S. map_of L S \<noteq> None \<longleftrightarrow> level_set rnd baskets ms (k - 1) S"
    and dsd: "distinct (map fst sd)"
    and sd: "\<And>S. map_of sd S =
        (if S \<noteq> [] \<and> length S < k \<and> level_set rnd baskets ms (length S) S
         then Some (support rnd baskets S) else None)"
    by (simp_all add: table_inv_def)
  from next_level_level_set [OF k L] nl
  have dL': "distinct (map fst L')"
    and L': "\<And>S. map_of L' S =
       (if level_set rnd baskets ms k S then Some (support rnd baskets S) else None)"
    by auto
  have len: "level_set rnd baskets ms k S \<Longrightarrow> length S = k" for S
    by (simp add: level_set_def)
  have "map_of (dict_update sd L') S =
        (if S \<noteq> [] \<and> length S < k + 1 \<and> level_set rnd baskets ms (length S) S
         then Some (support rnd baskets S) else None)" for S
  proof (cases "length S = k")
    case True
    with k have "S \<noteq> []" by auto
    with True show ?thesis
      by (simp add: map_of_dict_update map_of_rev_distinct [OF dL'] map_add_def L' sd)
  next
    case False
    with len have "\<not> level_set rnd baskets ms k S" by auto
    with False show ?thesis
      by (auto simp add: map_of_dict_update map_of_rev_distinct [OF dL'] map_add_def L' sd)
  qed
  moreover have "map_of L' S \<noteq> None \<longleftrightarrow> level_set rnd baskets ms (k + 1 - 1) S" for S
    by (simp add: L')
  ultimately show ?thesis
    using k dsd unfolding table_inv_def
    by (simp add: distinct_dict_update)
qed

lemma table_inv_final:
  fixes baskets :: "'a::linorder basket list"
  assumes inv: "table_inv rnd baskets ms [] k sd"
  shows "distinct (map fst sd) \<and>
     (\<forall>S. map_of sd S =
        (if is_itemset S \<and> reachable rnd baskets ms S then Some (support rnd baskets S) else None))"
proof -
  from inv have k: "2 \<le> k"
    and L: "\<And>S. \<not> level_set rnd baskets ms (k - 1) S"
    and dsd: "distinct (map fst sd)"
    and sd: "\<And>S. map_of sd S =
        (if S \<noteq> [] \<and> length S < k \<and> level_set rnd baskets ms (length S) S
         then Some (support rnd baskets S) else None)"
    by (simp_all add: table_inv_def)
  have "\<not> level_set rnd baskets ms (length S) S" if "k \<le> length S" for S
  proof
    assume "level_set rnd baskets ms (length S) S"
    moreover from that have "k - 1 \<le> length S" by simp
    ultimately have "level_set rnd baskets ms (k - 1) (take (k - 1) S)" by (rule level_set_take)
    with L show False by blast
  qed
  then have "map_of sd S =
        (if is_itemset S \<and> reachable rnd baskets ms S then Some (support rnd baskets S) else None)"
    for S
    unfolding sd by (cases "length S < k") (auto simp: level_set_def is_itemset_def)
  with dsd show ?thesis by simp
qed

lemma miner_table:
  fixes baskets :: "'a::linorder basket list"
  assumes "\<forall>b \<in> set baskets. distinct b"
  shows "\<exists>T. get_frequent_itemsets rnd baskets ms = Some (Inr T) \<and> distinct (map fst T) \<and>
     (\<forall>S. map_of T S =
        (if is_itemset S \<and> reachable rnd baskets ms S then Some (support rnd baskets S) else None))"
proof -
  from first_level [OF assms, of rnd ms]
  obtain L1 where L1: "frequent rnd (length baskets) ms (count_items baskets) = Inr L1"
    and d1: "distinct (map fst L1)"
    and m1: "\<And>S. map_of L1 S =
         (if level_set rnd baskets ms 1 S then Some (support rnd baskets S) else None)"
    by blast
  have len: "level_set rnd baskets ms 1 S \<Longrightarrow> length S = 1" for S
    by (simp add: level_set_def)
  have "map_of (dict_update [] L1) S =
        (if S \<noteq> [] \<and> length S < 2 \<and> level_set rnd baskets ms (length S) S
         then Some (support rnd baskets S) else None)" for S
  proof (cases "length S = 1")
    case True
    then have "S \<noteq> []" by auto
    with True show ?thesis
      by (simp add: map_of_dict_update map_of_rev_distinct [OF d1] m1)
  next
    case False
    with len have "\<not> level_set rnd baskets ms 1 S" by auto
    moreover from False have "S = [] \<or> \<not> length S < 2" by (cases S) auto
    ultimately show ?thesis
      by (auto simp add: map_of_dict_update map_of_rev_distinct [OF d1] m1)
  qed
  then have "table_inv rnd baskets ms L1 2 (dict_update [] L1)"
    unfolding table_inv_def by (simp add: m1 distinct_dict_update)
  then have "\<exists>T. apriori_loop rnd baskets ms L1 2 (dict_update [] L1) = Some (Inr T) \<and>
     (distinct (map fst T) \<and>
      (\<forall>S. map_of T S =
        (if is_itemset S \<and> reachable rnd baskets ms S then Some (support rnd baskets S) else None)))"
  proof (rule apriori_loop_rule [where I = "table_inv rnd baskets ms"])
    show "table_inv rnd baskets ms L' (k + 1) (dict_update sd L')"
      if "table_inv rnd baskets ms L k sd" "L \<noteq> []" "next_level rnd baskets ms L k = Inr L'"
      for L k sd L'
      using that(1,3) by (rule table_inv_step)
    show "distinct (map fst sd) \<and>
      (\<forall>S. map_of sd S =
        (if is_itemset S \<and> reachable rnd baskets ms S then Some (support rnd baskets S) else None))"
      if "table_inv rnd baskets ms [] k sd" for k sd
      using that by (rule table_inv_final)
  qed
  then show ?thesis
    unfolding get_frequent_itemsets_def L1 by simp
qed

section \<open>Consequences of the characterisation of the mined table\<close>

lemma canonical_subset_subseq:
  fixes A B :: "'a::linorder list"
  assumes "sorted A" "sorted B" "distinct B" "set B \<subseteq> set A"
  shows "subseq B A"
  using assms by (intro sorted_subset_imp_subseq) (simp_all add: strict_sorted_iff)

lemma support_antimono:
  assumes "float_rounding rnd" and "set T \<subseteq> set S"
  shows "support rnd baskets S \<le> support rnd baskets T"
  using float_roundingD(3) [OF assms(1)] assms(2) by (rule support_mono)

lemma reachable_frequent:
  assumes "float_rounding rnd" and "0 < ms" and "S \<noteq> []"
  shows "reachable rnd baskets ms S \<longleftrightarrow> ms \<le> support rnd baskets S"
proof
  assume "reachable rnd baskets ms S"
  with assms(3) show "ms \<le> support rnd baskets S" by (simp add: reachable_self)
next
  assume f: "ms \<le> support rnd baskets S"
  with assms(2) have "0 < support rnd baskets S" by simp
  then have c: "0 < cnt baskets S"
    using float_roundingD(1) [OF assms(1)]
    by (cases "cnt baskets S = 0") (simp_all add: support_def)
  have "ms \<le> support rnd baskets T" if "subseq T S" for T
    using support_antimono [OF assms(1) subseq_set [OF that], of baskets] f by simp
  with c show "reachable rnd baskets ms S" by (simp add: reachable_iff)
qed

lemma support_pos:
  assumes "float_rounding rnd" and "0 < cnt baskets S"
  shows "rnd (1 / of_nat (length baskets)) \<le> support rnd baskets S"
    and "0 < support rnd baskets S"
proof -
  have "cnt baskets S \<le> length baskets" by (simp add: cnt_def)
  with assms(2) have l: "0 < length baskets" by (cases baskets) auto
  from assms(2) have "(1::rat) \<le> of_nat (cnt baskets S)" by simp
  then have "(1 / of_nat (length baskets) :: rat)
      \<le> of_nat (cnt baskets S) / of_nat (length baskets)"
    by (simp add: divide_right_mono)
  then show "rnd (1 / of_nat (length baskets)) \<le> support rnd baskets S"
    unfolding support_def by (intro float_roundingD(3) [OF assms(1)]) simp_all
  have "(0::rat) < of_nat (cnt baskets S) / of_nat (length baskets)"
    using l assms(2) by simp
  then show "0 < support rnd baskets S"
    unfolding support_def by (rule float_roundingD(4) [OF assms(1)])
qed

text \<open>What an entry of the mined table says.\<close>

lemma miner_table_entry:
  fixes baskets :: "'a::linorder basket list"
  assumes "\<forall>b \<in> set baskets. distinct b"
    and "get_frequent_itemsets rnd baskets ms = Some (Inr T)"
    and "map_of T S = Some v"
  shows "is_itemset S" "reachable rnd baskets ms S" "v = support rnd baskets S"
    "0 < cnt baskets S" "ms \<le> support rnd baskets S"
proof -
  from miner_table [OF assms(1), of rnd ms] assms(2)
  have "map_of T S =
     (if is_itemset S \<and> reachable rnd baskets ms S then Some (support rnd baskets S) else None)"
    by auto
  with assms(3) show *: "is_itemset S" "reachable rnd baskets ms S" "v = support rnd baskets S"
    by (auto split: if_splits)
  then show "0 < cnt baskets S" "ms \<le> support rnd baskets S"
    using reachable_self [of rnd baskets ms S] by (auto simp: is_itemset_def)
qed

section \<open>The mined table: correctness, downward closure, anti-monotonicity\<close>

text \<open>
  C1, as amended (miner correctness). For every sequence of baskets with at least one basket
  and every minimum support in (0,1], the miner returns a table that has an entry for an
  itemset exactly when the itemset is frequent and reachable by the level-wise construction,
  where the support that is compared with the minimum support, and that is recorded in the
  table, is the float that the division of the number of baskets that are supersets of the
  itemset by the number of baskets gives: the double nearest to the fraction, not the
  fraction itself. With a positive minimum support every frequent itemset is reachable, so
  the table holds exactly the itemsets that are frequent in this sense.
\<close>

theorem miner_correct:
  fixes baskets :: "'a::linorder basket list"
  assumes "baskets \<noteq> []" and "\<forall>b \<in> set baskets. distinct b"
    and "0 < min_sup" and "min_sup \<le> 1" and "float_rounding rnd"
  shows "\<exists>T. get_frequent_itemsets rnd baskets min_sup = Some (Inr T) \<and>
     distinct (map fst T) \<and>
     (\<forall>S. map_of T S =
        (if is_itemset S \<and> min_sup \<le> rnd (of_nat (cnt baskets S) / of_nat (length baskets)) \<and>
            reachable rnd baskets min_sup S
         then Some (rnd (of_nat (cnt baskets S) / of_nat (length baskets))) else None)) \<and>
     (\<forall>S. is_itemset S \<and> min_sup \<le> rnd (of_nat (cnt baskets S) / of_nat (length baskets)) \<longrightarrow>
        reachable rnd baskets min_sup S)"
proof -
  from miner_table [OF assms(2), of rnd min_sup]
  obtain T where T: "get_frequent_itemsets rnd baskets min_sup = Some (Inr T)"
    "distinct (map fst T)"
    "\<And>S. map_of T S =
       (if is_itemset S \<and> reachable rnd baskets min_sup S then Some (support rnd baskets S) else None)"
    by blast
  have r: "reachable rnd baskets min_sup S \<longleftrightarrow> min_sup \<le> support rnd baskets S"
    if "is_itemset S" for S
    using that by (intro reachable_frequent [OF assms(5,3)]) (simp add: is_itemset_def)
  have "map_of T S =
        (if is_itemset S \<and> min_sup \<le> support rnd baskets S \<and> reachable rnd baskets min_sup S
         then Some (support rnd baskets S) else None)" for S
    unfolding T(3) using r [of S] by auto
  with T(1,2) r show ?thesis unfolding support_def by blast
qed

text \<open>The scenario of the specification: five baskets over the items 1, 2, 3 (for A, B,
  C), minimum support 0.6, the double nearest to 3/5.\<close>

theorem miner_correct_witness:
  "\<exists>T. get_frequent_itemsets round_double [[1, 2], [1, 2, 3], [1], [2, 3], [1, 2, 3::nat]]
          (round_double (3 / 5)) = Some (Inr T) \<and>
     map_of T [1, 2] = Some (round_double (3 / 5)) \<and> map_of T [1, 3] = None"
proof -
  let ?bs = "[[1, 2], [1, 2, 3], [1], [2, 3], [1, 2, 3::nat]]"
  let ?ms = "round_double (3 / 5)"
  have h: "?bs \<noteq> []" "\<forall>b \<in> set ?bs. distinct b" by simp_all
  have h': "0 < ?ms" "?ms \<le> 1" by code_simp+
  have e: "is_itemset [1, 2::nat]"
    "round_double (of_nat (cnt ?bs [1, 2]) / of_nat (length ?bs)) = ?ms"
    "reachable round_double ?bs ?ms [1, 2]"
    "\<not> ?ms \<le> round_double (of_nat (cnt ?bs [1, 3]) / of_nat (length ?bs))"
    by code_simp+
  from miner_correct [OF h h' float_rounding_round_double] obtain T where
    T: "get_frequent_itemsets round_double ?bs ?ms = Some (Inr T)"
    "\<And>S. map_of T S =
        (if is_itemset S \<and> ?ms \<le> round_double (of_nat (cnt ?bs S) / of_nat (length ?bs)) \<and>
            reachable round_double ?bs ?ms S
         then Some (round_double (of_nat (cnt ?bs S) / of_nat (length ?bs))) else None)"
    by blast
  have "map_of T [1, 2] = Some ?ms"
    unfolding T(2) using e(1,3) by (simp only: e(2) order_refl simp_thms if_True)
  moreover have "map_of T [1, 3] = None"
    unfolding T(2) using e(4) by (simp only: simp_thms if_False)
  ultimately show ?thesis using T(1) by blast
qed

text \<open>The claim as it is written fails, since the division is a float division. Of ten
  baskets one holds item 1, and the minimum support is the float 0.1, which is above 1/10:
  the fraction of the baskets that hold item 1 is below the minimum support, and yet the
  table has an entry for it, whose recorded support is not the fraction 1/10.\<close>

theorem exact_fraction_counterexample:
  "get_frequent_itemsets round_double
      [[1], [2], [2], [2], [2], [2], [2], [2], [2], [2::nat]] (round_double (1 / 10))
     = Some (Inr [([1], 3602879701896397 / 36028797018963968),
                  ([2], 8106479329266893 / 9007199254740992)]) \<and>
   of_nat (cnt [[1], [2], [2], [2], [2], [2], [2], [2], [2], [2::nat]] [1]) /
     of_nat (length [[1], [2], [2], [2], [2], [2], [2], [2], [2], [2::nat]]) = (1 / 10 :: rat) \<and>
   (1 / 10 :: rat) < round_double (1 / 10) \<and>
   round_double (1 / 10) = 3602879701896397 / 36028797018963968"
  by code_simp

text \<open>
  C2 (downward closure). For every collection of baskets and every minimum support, every
  non-empty proper subset of an itemset of the mined table is in the table too, with a
  support that meets the threshold.
\<close>

theorem downward_closure:
  fixes baskets :: "'a::linorder basket list"
  assumes "\<forall>b \<in> set baskets. distinct b"
  shows "\<exists>T. get_frequent_itemsets rnd baskets min_sup = Some (Inr T) \<and>
     (\<forall>A B v. map_of T A = Some v \<and> is_itemset B \<and> set B \<subset> set A \<longrightarrow>
        (\<exists>w. map_of T B = Some w \<and> min_sup \<le> w))"
proof -
  from miner_table [OF assms, of rnd min_sup]
  obtain T where T: "get_frequent_itemsets rnd baskets min_sup = Some (Inr T)"
    "\<And>S. map_of T S =
       (if is_itemset S \<and> reachable rnd baskets min_sup S then Some (support rnd baskets S) else None)"
    by blast
  have "\<exists>w. map_of T B = Some w \<and> min_sup \<le> w"
    if A: "map_of T A = Some v" and B: "is_itemset B" "set B \<subset> set A" for A B v
  proof -
    from miner_table_entry [OF assms T(1) A]
    have "is_itemset A" "reachable rnd baskets min_sup A" by simp_all
    with B have "subseq B A"
      by (intro canonical_subset_subseq) (auto simp: is_itemset_def)
    with \<open>reachable rnd baskets min_sup A\<close> have r: "reachable rnd baskets min_sup B"
      by (rule reachable_subseq)
    with B(1) have "min_sup \<le> support rnd baskets B"
      using reachable_self [of rnd baskets min_sup B] by (simp add: is_itemset_def)
    with r B(1) show ?thesis by (simp add: T(2))
  qed
  with T(1) show ?thesis by blast
qed

theorem downward_closure_witness:
  "\<exists>T w. get_frequent_itemsets round_double [[1, 2], [1, 2, 3], [1], [2, 3], [1, 2, 3::nat]]
            (round_double (3 / 5)) = Some (Inr T) \<and>
     map_of T [2, 3] = Some (round_double (3 / 5)) \<and> map_of T [3] = Some w \<and>
     round_double (3 / 5) \<le> w"
proof -
  let ?bs = "[[1, 2], [1, 2, 3], [1], [2, 3], [1, 2, 3::nat]]"
  let ?ms = "round_double (3 / 5)"
  let ?T = "[([1], round_double (4 / 5)), ([2], round_double (4 / 5)), ([3], round_double (3 / 5)),
    ([1, 2], round_double (3 / 5)), ([2, 3::nat], round_double (3 / 5))]"
  have h: "\<forall>b \<in> set ?bs. distinct b" by simp
  have e: "get_frequent_itemsets round_double ?bs ?ms = Some (Inr ?T)"
    by code_simp
  have i: "is_itemset [3::nat]" by code_simp
  have s: "set [3] \<subset> set [2, 3::nat]" by code_simp
  have m: "map_of ?T [2, 3] = Some ?ms" by simp
  from downward_closure [OF h, of round_double ?ms]
  have "\<forall>A B v. map_of ?T A = Some v \<and> is_itemset B \<and> set B \<subset> set A \<longrightarrow>
        (\<exists>w. map_of ?T B = Some w \<and> ?ms \<le> w)"
    unfolding e by (simp only: option.inject sum.inject simp_thms)
  with m i s obtain w where "map_of ?T [3] = Some w" "?ms \<le> w" by blast
  with e m show ?thesis by blast
qed

text \<open>
  C3 (anti-monotonicity). Whenever an itemset and a proper superset of it both have an
  entry in the mined table, the support recorded for the subset is at least the support
  recorded for the superset.
\<close>

theorem anti_monotone:
  fixes baskets :: "'a::linorder basket list"
  assumes "\<forall>b \<in> set baskets. distinct b" and "float_rounding rnd"
  shows "\<exists>T. get_frequent_itemsets rnd baskets min_sup = Some (Inr T) \<and>
     (\<forall>A B a b. map_of T A = Some a \<and> map_of T B = Some b \<and> set A \<subset> set B \<longrightarrow> b \<le> a)"
proof -
  from miner_table [OF assms(1), of rnd min_sup]
  obtain T where T: "get_frequent_itemsets rnd baskets min_sup = Some (Inr T)" by blast
  have "b \<le> a" if "map_of T A = Some a" "map_of T B = Some b" "set A \<subset> set B" for A B a b
    using miner_table_entry(3) [OF assms(1) T that(1)] miner_table_entry(3) [OF assms(1) T that(2)]
      support_antimono [OF assms(2), of A B baskets] that(3) by auto
  with T show ?thesis by blast
qed

theorem anti_monotone_witness:
  "\<exists>T a b. get_frequent_itemsets round_double [[1, 2], [1, 2, 3], [1], [2, 3], [1, 2, 3::nat]]
              (round_double (3 / 5)) = Some (Inr T) \<and>
     map_of T [1] = Some a \<and> map_of T [1, 2] = Some b \<and> b \<le> a"
proof -
  let ?bs = "[[1, 2], [1, 2, 3], [1], [2, 3], [1, 2, 3::nat]]"
  let ?ms = "round_double (3 / 5)"
  let ?T = "[([1], round_double (4 / 5)), ([2], round_double (4 / 5)), ([3], round_double (3 / 5)),
    ([1, 2], round_double (3 / 5)), ([2, 3::nat], round_double (3 / 5))]"
  have h: "\<forall>b \<in> set ?bs. distinct b" by simp
  have e: "get_frequent_itemsets round_double ?bs ?ms = Some (Inr ?T)"
    by code_simp
  have s: "set [1] \<subset> set [1, 2::nat]" by code_simp
  have m: "map_of ?T [1] = Some (round_double (4 / 5))"
    "map_of ?T [1, 2] = Some (round_double (3 / 5))" by simp_all
  from anti_monotone [OF h float_rounding_round_double, of ?ms]
  have "\<forall>A B a b. map_of ?T A = Some a \<and> map_of ?T B = Some b \<and> set A \<subset> set B \<longrightarrow> b \<le> a"
    unfolding e by (simp only: option.inject sum.inject simp_thms)
  with m s have "round_double (3 / 5) \<le> round_double (4 / 5)" by blast
  with e m show ?thesis by blast
qed

section \<open>The rule generator\<close>

lemma for_append_Inr:
  "(\<And>x. x \<in> set xs \<Longrightarrow> body x = Inr (g x)) \<Longrightarrow>
   for_append body xs rules = Inr (rules @ concat (map g xs))"
  by (induction xs arbitrary: rules) simp_all

text \<open>When the body can raise one error only, the loop raises it as soon as the body does.\<close>

lemma for_append_Inl:
  assumes "\<exists>x \<in> set xs. body x = Inl e"
    and "\<And>x e'. x \<in> set xs \<Longrightarrow> body x = Inl e' \<Longrightarrow> e' = e"
  shows "for_append body xs rules = Inl e"
  using assms
proof (induction xs arbitrary: rules)
  case Nil
  then show ?case by simp
next
  case (Cons x xs)
  show ?case
  proof (cases "body x")
    case (Inl e')
    with Cons.prems(2) [of x e'] show ?thesis by simp
  next
    case (Inr new)
    with Cons.prems(1) have "\<exists>x \<in> set xs. body x = Inl e" by auto
    moreover have "e' = e" if "x' \<in> set xs" "body x' = Inl e'" for x' e'
      using Cons.prems(2) [of x' e'] that by simp
    ultimately have "for_append body xs (rules @ new) = Inl e" by (rule Cons.IH)
    with Inr show ?thesis by simp
  qed
qed

lemma map_of_Some_snd: "map_of sd k = Some v \<Longrightarrow> v \<in> snd ` set sd"
  by (force dest: map_of_SomeD)

lemma map_of_key_iff: "k \<in> fst ` set sd \<longleftrightarrow> (\<exists>v. map_of sd k = Some v)"
  using map_of_eq_None_iff [of sd k] by auto

lemma zero_antecedent_iff:
  "zero_antecedent sd \<longleftrightarrow>
     (\<exists>itemset \<in> fst ` set sd. 2 \<le> length itemset \<and>
        (\<exists>x \<in> set itemset. map_of sd (removeAll x itemset) = Some 0))"
  by (auto simp: zero_antecedent_def list_ex_iff)

lemma nonzero_supports:
  assumes "\<forall>v \<in> snd ` set sd. v \<noteq> 0"
  shows "\<not> zero_antecedent sd"
proof
  assume "zero_antecedent sd"
  then obtain k where "map_of sd k = Some 0" by (auto simp: zero_antecedent_iff)
  then have "0 \<in> snd ` set sd" by (rule map_of_Some_snd)
  with assms show False by blast
qed

lemma rule_for_cases:
  assumes "itemset \<in> fst ` set sd"
  shows "rule_for rnd sd mc itemset x =
     (if map_of sd (removeAll x itemset) = Some 0 then Inl ZeroDivisionError
      else Inr (rules_at rnd sd mc itemset x))"
proof -
  from assms obtain s where s: "map_of sd itemset = Some s"
    by (auto simp: map_of_key_iff)
  show ?thesis
  proof (cases "map_of sd (removeAll x itemset)")
    case None
    then show ?thesis by (simp add: rule_for_def rules_at_def contains_def)
  next
    case (Some sl)
    with s show ?thesis by (simp add: rule_for_def rules_at_def contains_def Let_def)
  qed
qed

lemma rules_of_itemset_cases:
  assumes "itemset \<in> fst ` set sd"
  shows "rules_of_itemset rnd sd mc itemset =
     (if 2 \<le> length itemset \<and> (\<exists>x \<in> set itemset. map_of sd (removeAll x itemset) = Some 0)
      then Inl ZeroDivisionError
      else Inr (if 2 \<le> length itemset
                then concat (map (rules_at rnd sd mc itemset) itemset) else []))"
proof (cases "2 \<le> length itemset")
  case False
  then show ?thesis by (simp add: rules_of_itemset_def)
next
  case True
  note rf = rule_for_cases [OF assms, of rnd mc]
  show ?thesis
  proof (cases "\<exists>x \<in> set itemset. map_of sd (removeAll x itemset) = Some 0")
    case True
    then have "\<exists>x \<in> set itemset. rule_for rnd sd mc itemset x = Inl ZeroDivisionError"
      by (simp add: rf)
    moreover have "e' = ZeroDivisionError" if "rule_for rnd sd mc itemset x = Inl e'" for x e'
      using that by (simp add: rf split: if_splits)
    ultimately have "for_append (rule_for rnd sd mc itemset) itemset [] = Inl ZeroDivisionError"
      by (rule for_append_Inl)
    with True \<open>2 \<le> length itemset\<close> show ?thesis by (simp add: rules_of_itemset_def)
  next
    case False
    then have "rule_for rnd sd mc itemset x = Inr (rules_at rnd sd mc itemset x)"
      if "x \<in> set itemset" for x
      using that by (simp add: rf)
    then have "for_append (rule_for rnd sd mc itemset) itemset [] =
        Inr ([] @ concat (map (rules_at rnd sd mc itemset) itemset))"
      by (rule for_append_Inr)
    with False \<open>2 \<le> length itemset\<close> show ?thesis by (simp add: rules_of_itemset_def)
  qed
qed

lemma generate_rules_cases:
  "generate_rules rnd sd mc =
     (if zero_antecedent sd then Inl ZeroDivisionError
      else Inr (concat (map (\<lambda>itemset. if 2 \<le> length itemset
                                        then concat (map (rules_at rnd sd mc itemset) itemset)
                                        else [])
                  (map fst sd))))"
proof (cases "zero_antecedent sd")
  case True
  then have "\<exists>itemset \<in> set (map fst sd). rules_of_itemset rnd sd mc itemset = Inl ZeroDivisionError"
    unfolding zero_antecedent_iff by (auto simp: rules_of_itemset_cases)
  moreover have "e' = ZeroDivisionError"
    if "itemset \<in> set (map fst sd)" "rules_of_itemset rnd sd mc itemset = Inl e'" for itemset e'
    using that by (simp add: rules_of_itemset_cases split: if_splits)
  ultimately have "for_append (rules_of_itemset rnd sd mc) (map fst sd) [] = Inl ZeroDivisionError"
    by (rule for_append_Inl)
  with True show ?thesis by (simp add: generate_rules_def)
next
  case False
  then have "rules_of_itemset rnd sd mc itemset =
      Inr (if 2 \<le> length itemset then concat (map (rules_at rnd sd mc itemset) itemset) else [])"
    if "itemset \<in> set (map fst sd)" for itemset
    using that unfolding zero_antecedent_iff by (auto simp: rules_of_itemset_cases)
  then have "for_append (rules_of_itemset rnd sd mc) (map fst sd) [] =
      Inr ([] @ concat (map (\<lambda>itemset. if 2 \<le> length itemset
                                        then concat (map (rules_at rnd sd mc itemset) itemset)
                                        else [])
                  (map fst sd)))"
    by (rule for_append_Inr)
  with False show ?thesis by (simp add: generate_rules_def)
qed

lemma in_rules_at:
  "r \<in> set (rules_at rnd sd mc itemset x) \<longleftrightarrow>
     (\<exists>s sl. map_of sd itemset = Some s \<and> map_of sd (removeAll x itemset) = Some sl \<and>
        mc \<le> rnd (s / sl) \<and> r = (removeAll x itemset, [x], s, rnd (s / sl)))"
  by (cases "map_of sd (removeAll x itemset)"; cases "map_of sd itemset")
     (auto simp: rules_at_def)

text \<open>The rules generated from a table on which no division raises.\<close>

lemma generate_rules_char:
  assumes "\<not> zero_antecedent sd"
  shows "\<exists>rules. generate_rules rnd sd mc = Inr rules \<and>
     (\<forall>r. r \<in> set rules \<longleftrightarrow>
        (\<exists>itemset x s sl. map_of sd itemset = Some s \<and> 2 \<le> length itemset \<and>
           x \<in> set itemset \<and> map_of sd (removeAll x itemset) = Some sl \<and>
           mc \<le> rnd (s / sl) \<and> r = (removeAll x itemset, [x], s, rnd (s / sl))))"
proof -
  let ?rules = "concat (map (\<lambda>itemset. if 2 \<le> length itemset
                                   then concat (map (rules_at rnd sd mc itemset) itemset) else [])
            (map fst sd))"
  have "r \<in> set ?rules \<longleftrightarrow>
        (\<exists>itemset x s sl. map_of sd itemset = Some s \<and> 2 \<le> length itemset \<and>
           x \<in> set itemset \<and> map_of sd (removeAll x itemset) = Some sl \<and>
           mc \<le> rnd (s / sl) \<and> r = (removeAll x itemset, [x], s, rnd (s / sl)))"
    (is "?l \<longleftrightarrow> ?r") for r
  proof
    assume ?l
    then obtain itemset x where "itemset \<in> set (map fst sd)" "2 \<le> length itemset"
      "x \<in> set itemset" "r \<in> set (rules_at rnd sd mc itemset x)"
      by (auto split: if_splits)
    then show ?r unfolding in_rules_at by blast
  next
    assume ?r
    then obtain itemset x s sl where *: "map_of sd itemset = Some s" "2 \<le> length itemset"
      "x \<in> set itemset" "map_of sd (removeAll x itemset) = Some sl"
      "mc \<le> rnd (s / sl)" "r = (removeAll x itemset, [x], s, rnd (s / sl))"
      by blast
    then have "itemset \<in> set (map fst sd)" by (auto simp: map_of_key_iff)
    moreover from * have "r \<in> set (rules_at rnd sd mc itemset x)"
      unfolding in_rules_at by blast
    ultimately show ?l using *(2,3) by auto
  qed
  with generate_rules_cases [of rnd sd mc] assms show ?thesis by simp
qed

text \<open>
  C6, as amended (contract of the rule generator). For every support table and every minimum
  confidence: when some itemset of the table with at least two items has an item whose
  removal leaves an antecedent that is in the table with support 0, the generator raises
  ZeroDivisionError. Otherwise it returns a rule list, and a rule is in the list exactly
  when there are an itemset of the table with at least two items and an item of it, the
  consequent, such that the antecedent (the itemset without that item) is in the table and
  the confidence, the float that the division of the support of the itemset by the support
  of the antecedent gives, is at least the minimum confidence; the rule carries this float.
  A candidate whose antecedent is missing from the table is skipped: no error is raised
  for it.
\<close>

theorem rule_generator_contract:
  "(zero_antecedent support_data \<longrightarrow>
      generate_rules rnd support_data min_conf = Inl ZeroDivisionError) \<and>
   (\<not> zero_antecedent support_data \<longrightarrow>
      (\<exists>rules. generate_rules rnd support_data min_conf = Inr rules \<and>
         (\<forall>lhs rhs s c. (lhs, rhs, s, c) \<in> set rules \<longleftrightarrow>
            (\<exists>itemset x sl. map_of support_data itemset = Some s \<and> 2 \<le> length itemset \<and>
               x \<in> set itemset \<and> rhs = [x] \<and> lhs = removeAll x itemset \<and>
               map_of support_data lhs = Some sl \<and> c = rnd (s / sl) \<and> min_conf \<le> c))))"
proof (intro conjI impI)
  assume "zero_antecedent support_data"
  then show "generate_rules rnd support_data min_conf = Inl ZeroDivisionError"
    by (simp add: generate_rules_cases)
next
  assume "\<not> zero_antecedent support_data"
  from generate_rules_char [OF this, of rnd min_conf]
  obtain rules where r: "generate_rules rnd support_data min_conf = Inr rules"
    "\<And>r. r \<in> set rules \<longleftrightarrow>
        (\<exists>itemset x s sl. map_of support_data itemset = Some s \<and> 2 \<le> length itemset \<and>
           x \<in> set itemset \<and> map_of support_data (removeAll x itemset) = Some sl \<and>
           min_conf \<le> rnd (s / sl) \<and> r = (removeAll x itemset, [x], s, rnd (s / sl)))"
    by blast
  have "(lhs, rhs, s, c) \<in> set rules \<longleftrightarrow>
        (\<exists>itemset x sl. map_of support_data itemset = Some s \<and> 2 \<le> length itemset \<and>
           x \<in> set itemset \<and> rhs = [x] \<and> lhs = removeAll x itemset \<and>
           map_of support_data lhs = Some sl \<and> c = rnd (s / sl) \<and> min_conf \<le> c)"
    for lhs rhs s c
    unfolding r(2) by auto
  with r(1) show "\<exists>rules. generate_rules rnd support_data min_conf = Inr rules \<and>
         (\<forall>lhs rhs s c. (lhs, rhs, s, c) \<in> set rules \<longleftrightarrow>
            (\<exists>itemset x sl. map_of support_data itemset = Some s \<and> 2 \<le> length itemset \<and>
               x \<in> set itemset \<and> rhs = [x] \<and> lhs = removeAll x itemset \<and>
               map_of support_data lhs = Some sl \<and> c = rnd (s / sl) \<and> min_conf \<le> c))"
    by blast
qed

text \<open>A table with the floats 0.8 and 0.6 of the scenario of the specification, minimum
  confidence 0.7: the rule from 1 to 2 is emitted, with the float quotient of 0.6 and 0.8;
  no rule has the antecedent 3, which is not in this table. A table in which item 2 has
  support 0: the generator raises.\<close>

theorem rule_generator_contract_witness:
  "(\<exists>rules. generate_rules round_double
        [([1], round_double (4 / 5)), ([2], round_double (4 / 5)),
         ([1, 2], round_double (3 / 5)), ([2, 3::nat], round_double (3 / 5))]
        (round_double (7 / 10)) = Inr rules \<and>
      ([1], [2], round_double (3 / 5), round_double (round_double (3 / 5) / round_double (4 / 5)))
        \<in> set rules \<and>
      ([3], [2], round_double (3 / 5), 1) \<notin> set rules) \<and>
   generate_rules round_double [([1], 1 / 2), ([2], 0), ([1, 2::nat], 1 / 2)] (1 / 2)
     = Inl ZeroDivisionError"
proof -
  let ?sd = "[([1], round_double (4 / 5)), ([2], round_double (4 / 5)),
         ([1, 2], round_double (3 / 5)), ([2, 3::nat], round_double (3 / 5))]"
  let ?mc = "round_double (7 / 10)"
  let ?c = "round_double (round_double (3 / 5) / round_double (4 / 5))"
  let ?z = "[([1], 1 / 2), ([2], 0), ([1, 2::nat], 1 / 2 :: rat)]"
  have h: "\<not> zero_antecedent ?sd" by code_simp
  have z: "zero_antecedent ?z" by code_simp
  from rule_generator_contract [of ?sd round_double ?mc] h
  obtain rules where r: "generate_rules round_double ?sd ?mc = Inr rules"
    "\<And>lhs rhs s c. (lhs, rhs, s, c) \<in> set rules \<longleftrightarrow>
        (\<exists>itemset x sl. map_of ?sd itemset = Some s \<and> 2 \<le> length itemset \<and>
           x \<in> set itemset \<and> rhs = [x] \<and> lhs = removeAll x itemset \<and>
           map_of ?sd lhs = Some sl \<and> c = round_double (s / sl) \<and> ?mc \<le> c)"
    by blast
  have "map_of ?sd [1, 2] = Some (round_double (3 / 5)) \<and> 2 \<le> length [1, 2::nat] \<and>
           2 \<in> set [1, 2::nat] \<and> [2::nat] = [2] \<and> [1] = removeAll 2 [1, 2::nat] \<and>
           map_of ?sd [1] = Some (round_double (4 / 5)) \<and>
           ?c = round_double (round_double (3 / 5) / round_double (4 / 5)) \<and> ?mc \<le> ?c"
    by code_simp
  then have in1: "([1], [2], round_double (3 / 5), ?c) \<in> set rules"
    unfolding r(2) by blast
  have "generate_rules round_double ?sd ?mc =
     Inr [([2], [1], round_double (3 / 5), ?c), ([1], [2], round_double (3 / 5), ?c),
          ([2], [3], round_double (3 / 5), ?c)]"
    by code_simp
  with r(1) have "([3], [2], round_double (3 / 5), 1) \<notin> set rules" by auto
  moreover from rule_generator_contract [of ?z round_double "1 / 2"] z
  have "generate_rules round_double ?z (1 / 2) = Inl ZeroDivisionError" by blast
  ultimately show ?thesis using r(1) in1 by blast
qed

text \<open>The claim as it is written fails. On a table in which the antecedent 2 has support 0
  the generator raises ZeroDivisionError instead of returning rules. And the quotient that
  is compared with the minimum confidence is a float: for the supports 1/16 and 5/8 and the
  minimum confidence 0.1 (a float above 1/10) the quotient of the supports, 1/10, is below
  the minimum confidence, and yet the rule is emitted.\<close>

theorem rule_generator_counterexample:
  "generate_rules round_double [([1], 1 / 2), ([2], 0), ([1, 2::nat], 1 / 2)] (1 / 2)
     = Inl ZeroDivisionError \<and>
   generate_rules round_double [([1], 5 / 8), ([1, 2::nat], 1 / 16)] (round_double (1 / 10))
     = Inr [([1], [2], 1 / 16, 3602879701896397 / 36028797018963968)] \<and>
   ((1 / 16) / (5 / 8) :: rat) < round_double (1 / 10)"
  by code_simp

lemma miner_table_nonzero:
  fixes baskets :: "'a::linorder basket list"
  assumes "\<forall>b \<in> set baskets. distinct b" and "float_rounding rnd"
    and "get_frequent_itemsets rnd baskets ms = Some (Inr T)"
  shows "\<not> zero_antecedent T"
proof (rule nonzero_supports, rule ballI)
  fix v assume "v \<in> snd ` set T"
  then obtain S where "(S, v) \<in> set T" by auto
  moreover from miner_table [OF assms(1), of rnd ms] assms(3) have "distinct (map fst T)" by auto
  ultimately have "map_of T S = Some v" by simp
  from miner_table_entry(3,4) [OF assms(1,3) this] support_pos(2) [OF assms(2), of baskets S]
  show "v \<noteq> 0" by simp
qed

lemma fs_union_removeAll:
  assumes "is_itemset S" and "x \<in> set S"
  shows "fs_union (removeAll x S) [x] = S"
  unfolding fs_union_def using assms
  by (intro frozenset_eqI) (auto simp: is_itemset_def)

text \<open>
  C7 (confidence bound). For every rule that the generator emits from a table produced by
  the miner, the support of the union of antecedent and consequent (the support the rule
  carries) is at most the support of the antecedent, and the confidence of the rule, their
  quotient, is at most 1.
\<close>

theorem confidence_bound:
  fixes baskets :: "'a::linorder basket list"
  assumes "\<forall>b \<in> set baskets. distinct b" and "float_rounding rnd"
  shows "\<exists>T rules. get_frequent_itemsets rnd baskets min_sup = Some (Inr T) \<and>
     generate_rules rnd T min_conf = Inr rules \<and>
     (\<forall>lhs rhs s c. (lhs, rhs, s, c) \<in> set rules \<longrightarrow>
        (\<exists>sl. map_of T (fs_union lhs rhs) = Some s \<and> map_of T lhs = Some sl \<and>
           s \<le> sl \<and> c = rnd (s / sl) \<and> c \<le> 1))"
proof -
  from miner_table [OF assms(1), of rnd min_sup]
  obtain T where T: "get_frequent_itemsets rnd baskets min_sup = Some (Inr T)" by blast
  from generate_rules_char [OF miner_table_nonzero [OF assms T], of rnd min_conf]
  obtain rules where r: "generate_rules rnd T min_conf = Inr rules"
    "\<And>r. r \<in> set rules \<longleftrightarrow>
        (\<exists>itemset x s sl. map_of T itemset = Some s \<and> 2 \<le> length itemset \<and>
           x \<in> set itemset \<and> map_of T (removeAll x itemset) = Some sl \<and>
           min_conf \<le> rnd (s / sl) \<and> r = (removeAll x itemset, [x], s, rnd (s / sl)))"
    by blast
  have "\<exists>sl. map_of T (fs_union lhs rhs) = Some s \<and> map_of T lhs = Some sl \<and>
           s \<le> sl \<and> c = rnd (s / sl) \<and> c \<le> 1"
    if "(lhs, rhs, s, c) \<in> set rules" for lhs rhs s c
  proof -
    from that obtain itemset x sl where *: "map_of T itemset = Some s" "x \<in> set itemset"
      "map_of T lhs = Some sl" "lhs = removeAll x itemset" "rhs = [x]" "c = rnd (s / sl)"
      unfolding r(2) by auto
    note i = miner_table_entry [OF assms(1) T *(1)] and l = miner_table_entry [OF assms(1) T *(3)]
    have u: "fs_union lhs rhs = itemset"
      unfolding *(4,5) using i(1) *(2) by (rule fs_union_removeAll)
    have "set lhs \<subseteq> set itemset" unfolding *(4) by auto
    with assms(2) have le: "s \<le> sl"
      unfolding i(3) l(3) by (rule support_antimono)
    have pos: "0 < sl"
      unfolding l(3) using assms(2) l(4) by (rule support_pos(2))
    have "0 < s"
      unfolding i(3) using assms(2) i(4) by (rule support_pos(2))
    with le pos have "0 \<le> s / sl" "s / sl \<le> 1" by simp_all
    then have "rnd (s / sl) \<le> rnd 1" by (rule float_roundingD(3) [OF assms(2)])
    then have "c \<le> 1" unfolding *(6) by (simp add: float_roundingD(2) [OF assms(2)])
    with u * le show ?thesis by simp
  qed
  with T r(1) show ?thesis by blast
qed

theorem confidence_bound_witness:
  "\<exists>T rules sl. get_frequent_itemsets round_double [[1, 2], [1, 2, 3], [1], [2, 3], [1, 2, 3::nat]]
        (round_double (3 / 5)) = Some (Inr T) \<and>
     generate_rules round_double T (round_double (7 / 10)) = Inr rules \<and>
     ([3], [2], round_double (3 / 5), 1) \<in> set rules \<and>
     map_of T (fs_union [3] [2]) = Some (round_double (3 / 5)) \<and> map_of T [3] = Some sl \<and>
     round_double (3 / 5) \<le> sl \<and> (1::rat) = round_double (round_double (3 / 5) / sl)"
proof -
  let ?bs = "[[1, 2], [1, 2, 3], [1], [2, 3], [1, 2, 3::nat]]"
  let ?ms = "round_double (3 / 5)"
  let ?mc = "round_double (7 / 10)"
  let ?c = "round_double (round_double (3 / 5) / round_double (4 / 5))"
  let ?T = "[([1], round_double (4 / 5)), ([2], round_double (4 / 5)), ([3], round_double (3 / 5)),
    ([1, 2], round_double (3 / 5)), ([2, 3::nat], round_double (3 / 5))]"
  let ?R = "[([2], [1], round_double (3 / 5), ?c), ([1], [2], round_double (3 / 5), ?c),
    ([3], [2], round_double (3 / 5), 1), ([2], [3::nat], round_double (3 / 5), ?c)]"
  have h: "\<forall>b \<in> set ?bs. distinct b" by simp
  have e: "get_frequent_itemsets round_double ?bs ?ms = Some (Inr ?T)" by code_simp
  have g: "generate_rules round_double ?T ?mc = Inr ?R" by code_simp
  have m: "([3], [2], round_double (3 / 5), 1) \<in> set ?R" by simp
  from confidence_bound [OF h float_rounding_round_double, of ?ms ?mc]
  obtain T R where a: "get_frequent_itemsets round_double ?bs ?ms = Some (Inr T)"
    "generate_rules round_double T ?mc = Inr R"
    "\<forall>lhs rhs s c. (lhs, rhs, s, c) \<in> set R \<longrightarrow>
        (\<exists>sl. map_of T (fs_union lhs rhs) = Some s \<and> map_of T lhs = Some sl \<and>
           s \<le> sl \<and> c = round_double (s / sl) \<and> c \<le> 1)"
    by blast
  from a(1) have T: "T = ?T" unfolding e by simp
  from a(2) have R: "R = ?R" unfolding T g by simp
  from a(3) have "\<forall>lhs rhs s c. (lhs, rhs, s, c) \<in> set ?R \<longrightarrow>
        (\<exists>sl. map_of ?T (fs_union lhs rhs) = Some s \<and> map_of ?T lhs = Some sl \<and>
           s \<le> sl \<and> c = round_double (s / sl) \<and> c \<le> 1)"
    unfolding T R .
  with m obtain sl where "map_of ?T (fs_union [3] [2]) = Some (round_double (3 / 5))"
    "map_of ?T [3] = Some sl" "round_double (3 / 5) \<le> sl"
    "(1::rat) = round_double (round_double (3 / 5) / sl)" by blast
  with e g m show ?thesis by blast
qed



section \<open>Independence of the order of the baskets\<close>

lemma cnt_mset:
  "cnt baskets S = size (filter_mset (\<lambda>B. set S \<subseteq> B) (mset (map set baskets)))"
  by (induction baskets) (simp_all add: cnt_Cons)

lemma length_mset_sets: "length baskets = size (mset (map set baskets))"
  by simp

lemma support_reorder:
  assumes "mset (map set baskets') = mset (map set baskets)"
  shows "cnt baskets' S = cnt baskets S" "support rnd baskets' S = support rnd baskets S"
    "reachable rnd baskets' ms S = reachable rnd baskets ms S"
proof -
  show c: "cnt baskets' S = cnt baskets S" for S
    unfolding cnt_mset assms ..
  have l: "length baskets' = length baskets"
    using assms length_mset_sets [of baskets] length_mset_sets [of baskets'] by simp
  show s: "support rnd baskets' S = support rnd baskets S" for S
    unfolding support_def c l ..
  show "reachable rnd baskets' ms S = reachable rnd baskets ms S"
    unfolding reachable_def c s ..
qed

text \<open>
  C8 (determinism, independence of the order of the baskets). The miner and the rule
  generator are functions of their inputs. Moreover, when a second sequence of baskets holds
  the same baskets as sets, each as often (so in particular for every permutation of the
  sequence, and for every order in which the items of a basket are iterated), the two mined
  tables are the same mapping, and the rule lists generated from them hold the same rules.
\<close>

theorem order_independent:
  fixes baskets baskets' :: "'a::linorder basket list"
  assumes "\<forall>b \<in> set baskets. distinct b" and "\<forall>b \<in> set baskets'. distinct b"
    and "mset (map set baskets') = mset (map set baskets)" and "float_rounding rnd"
  shows "\<exists>T T' R R'. get_frequent_itemsets rnd baskets min_sup = Some (Inr T) \<and>
     get_frequent_itemsets rnd baskets' min_sup = Some (Inr T') \<and> map_of T' = map_of T \<and>
     generate_rules rnd T min_conf = Inr R \<and> generate_rules rnd T' min_conf = Inr R' \<and>
     set R' = set R"
proof -
  from miner_table [OF assms(1), of rnd min_sup]
  obtain T where T: "get_frequent_itemsets rnd baskets min_sup = Some (Inr T)"
    "\<And>S. map_of T S =
       (if is_itemset S \<and> reachable rnd baskets min_sup S then Some (support rnd baskets S) else None)"
    by blast
  from miner_table [OF assms(2), of rnd min_sup]
  obtain T' where T': "get_frequent_itemsets rnd baskets' min_sup = Some (Inr T')"
    "\<And>S. map_of T' S =
       (if is_itemset S \<and> reachable rnd baskets' min_sup S then Some (support rnd baskets' S) else None)"
    by blast
  have m: "map_of T' = map_of T"
    by (rule ext) (simp add: T(2) T'(2) support_reorder(2,3) [OF assms(3)])
  from generate_rules_char [OF miner_table_nonzero [OF assms(1,4) T(1)], of rnd min_conf]
  obtain R where R: "generate_rules rnd T min_conf = Inr R"
    "\<And>r. r \<in> set R \<longleftrightarrow>
        (\<exists>itemset x s sl. map_of T itemset = Some s \<and> 2 \<le> length itemset \<and>
           x \<in> set itemset \<and> map_of T (removeAll x itemset) = Some sl \<and>
           min_conf \<le> rnd (s / sl) \<and> r = (removeAll x itemset, [x], s, rnd (s / sl)))"
    by blast
  from generate_rules_char [OF miner_table_nonzero [OF assms(2,4) T'(1)], of rnd min_conf]
  obtain R' where R': "generate_rules rnd T' min_conf = Inr R'"
    "\<And>r. r \<in> set R' \<longleftrightarrow>
        (\<exists>itemset x s sl. map_of T' itemset = Some s \<and> 2 \<le> length itemset \<and>
           x \<in> set itemset \<and> map_of T' (removeAll x itemset) = Some sl \<and>
           min_conf \<le> rnd (s / sl) \<and> r = (removeAll x itemset, [x], s, rnd (s / sl)))"
    by blast
  have "set R' = set R"
    by (rule set_eqI) (simp only: R(2) R'(2) m)
  with T(1) T'(1) m R(1) R'(1) show ?thesis by blast
qed

theorem order_independent_witness:
  "\<exists>T T' R R'. get_frequent_itemsets round_double [[1, 2], [1, 2, 3], [1], [2, 3], [1, 2, 3::nat]]
        (round_double (3 / 5)) = Some (Inr T) \<and>
     get_frequent_itemsets round_double [[3, 2], [1], [2, 1], [3, 1, 2], [1, 2, 3::nat]]
        (round_double (3 / 5)) = Some (Inr T') \<and>
     map_of T' = map_of T \<and>
     generate_rules round_double T (round_double (7 / 10)) = Inr R \<and>
     generate_rules round_double T' (round_double (7 / 10)) = Inr R' \<and>
     set R' = set R"
proof -
  let ?bs = "[[1, 2], [1, 2, 3], [1], [2, 3], [1, 2, 3::nat]]"
  let ?bs' = "[[3, 2], [1], [2, 1], [3, 1, 2], [1, 2, 3::nat]]"
  have h: "\<forall>b \<in> set ?bs. distinct b" "\<forall>b \<in> set ?bs'. distinct b" by simp_all
  have "map set ?bs' = [{2, 3}, {1}, {1, 2}, {1, 2, 3}, {1, 2, 3}]"
    "map set ?bs = [{1, 2}, {1, 2, 3}, {1}, {2, 3}, {1, 2, 3}]"
    by (simp_all add: insert_commute)
  then have p: "mset (map set ?bs') = mset (map set ?bs)"
    by (simp only: mset.simps add_mset_commute)
  show ?thesis by (rule order_independent [OF h p float_rounding_round_double])
qed

section \<open>The threshold 1\<close>

lemma cnt_eq_length: "cnt baskets S = length baskets \<longleftrightarrow> (\<forall>b \<in> set baskets. set S \<subseteq> set b)"
proof (induction baskets)
  case Nil
  show ?case by simp
next
  case (Cons b bs)
  have "cnt bs S \<le> length bs" by (simp add: cnt_def)
  with Cons show ?case by (auto simp: cnt_Cons)
qed

lemma support_one:
  assumes "baskets \<noteq> []" and "rnd 1 = 1"
    and "\<forall>c < length baskets. rnd (of_nat c / of_nat (length baskets)) < 1"
  shows "1 \<le> support rnd baskets S \<longleftrightarrow> (\<forall>b \<in> set baskets. set S \<subseteq> set b)"
    and "(\<forall>b \<in> set baskets. set S \<subseteq> set b) \<Longrightarrow> support rnd baskets S = 1"
proof -
  have c: "cnt baskets S \<le> length baskets" by (simp add: cnt_def)
  have full: "support rnd baskets S = 1" if "cnt baskets S = length baskets"
    using that assms(1,2) by (simp add: support_def)
  have less: "support rnd baskets S < 1" if "cnt baskets S < length baskets"
    using assms(3) that by (simp add: support_def)
  show "1 \<le> support rnd baskets S \<longleftrightarrow> (\<forall>b \<in> set baskets. set S \<subseteq> set b)"
  proof (cases "cnt baskets S = length baskets")
    case True
    with full show ?thesis by (simp add: cnt_eq_length [symmetric])
  next
    case False
    with c have "cnt baskets S < length baskets" by simp
    from less [OF this] False show ?thesis by (simp add: cnt_eq_length [symmetric])
  qed
  show "support rnd baskets S = 1" if "\<forall>b \<in> set baskets. set S \<subseteq> set b"
    using that full by (simp add: cnt_eq_length)
qed

text \<open>
  C9, as amended (threshold 1). With minimum support 1 and at least one basket, the mined
  table holds exactly the non-empty itemsets that are contained in every basket, each with
  support 1: an item that is absent from some basket occurs in no entry, and the table is
  empty exactly when no item occurs in every basket. The float division is used through two
  facts: a number divided by itself gives 1, and a count below the number of baskets gives
  a float below 1 (which holds for doubles up to \<open>2 ^ 53\<close> baskets).
\<close>

theorem min_sup_one:
  fixes baskets :: "'a::linorder basket list"
  assumes "baskets \<noteq> []" and "\<forall>b \<in> set baskets. distinct b"
    and "rnd 1 = 1"
    and "\<forall>c < length baskets. rnd (of_nat c / of_nat (length baskets)) < 1"
  shows "\<exists>T. get_frequent_itemsets rnd baskets 1 = Some (Inr T) \<and>
     (\<forall>S. map_of T S =
        (if is_itemset S \<and> (\<forall>b \<in> set baskets. set S \<subseteq> set b) then Some 1 else None)) \<and>
     (T = [] \<longleftrightarrow> \<not> (\<exists>x. \<forall>b \<in> set baskets. x \<in> set b))"
proof -
  note one = support_one [OF assms(1,3,4)]
  from miner_table [OF assms(2), of rnd 1]
  obtain T where T: "get_frequent_itemsets rnd baskets 1 = Some (Inr T)"
    "\<And>S. map_of T S =
       (if is_itemset S \<and> reachable rnd baskets 1 S then Some (support rnd baskets S) else None)"
    by blast
  have r: "reachable rnd baskets 1 S \<longleftrightarrow> (\<forall>b \<in> set baskets. set S \<subseteq> set b)"
    if "is_itemset S" for S
  proof
    assume "reachable rnd baskets 1 S"
    with that have "1 \<le> support rnd baskets S"
      using reachable_self [of rnd baskets 1 S] by (simp add: is_itemset_def)
    then show "\<forall>b \<in> set baskets. set S \<subseteq> set b" by (simp add: one(1))
  next
    assume a: "\<forall>b \<in> set baskets. set S \<subseteq> set b"
    then have "cnt baskets S = length baskets" by (simp add: cnt_eq_length)
    with assms(1) have "0 < cnt baskets S" by simp
    moreover have "1 \<le> support rnd baskets U" if "subseq U S" for U
    proof -
      from that have "set U \<subseteq> set S" by (rule subseq_set)
      with a have "\<forall>b \<in> set baskets. set U \<subseteq> set b" by blast
      then show ?thesis by (simp add: one(1))
    qed
    ultimately show "reachable rnd baskets 1 S" by (simp add: reachable_iff)
  qed
  have m: "map_of T S =
        (if is_itemset S \<and> (\<forall>b \<in> set baskets. set S \<subseteq> set b) then Some 1 else None)" for S
    unfolding T(2) using r [of S] one(2) [of S] by auto
  have "T = [] \<longleftrightarrow> \<not> (\<exists>x. \<forall>b \<in> set baskets. x \<in> set b)"
  proof
    assume "T = []"
    show "\<not> (\<exists>x. \<forall>b \<in> set baskets. x \<in> set b)"
    proof
      assume "\<exists>x. \<forall>b \<in> set baskets. x \<in> set b"
      then obtain x where "\<forall>b \<in> set baskets. x \<in> set b" ..
      then have "map_of T [x] = Some 1" unfolding m by (simp add: is_itemset_def)
      with \<open>T = []\<close> show False by simp
    qed
  next
    assume n: "\<not> (\<exists>x. \<forall>b \<in> set baskets. x \<in> set b)"
    show "T = []"
    proof (cases T)
      case Nil
      then show ?thesis .
    next
      case (Cons p rest)
      obtain S v where "p = (S, v)" by (cases p)
      with Cons have "map_of T S = Some v" by simp
      then have "is_itemset S" "\<forall>b \<in> set baskets. set S \<subseteq> set b"
        unfolding m by (auto split: if_splits)
      then have "\<forall>b \<in> set baskets. hd S \<in> set b"
        by (cases S) (auto simp: is_itemset_def)
      with n show ?thesis by blast
    qed
  qed
  with T(1) m show ?thesis by blast
qed

theorem min_sup_one_witness:
  "\<exists>T. get_frequent_itemsets round_double [[1, 2], [1::nat]] 1 = Some (Inr T) \<and>
     map_of T [1] = Some 1 \<and> map_of T [2] = None \<and> T \<noteq> []"
proof -
  let ?bs = "[[1, 2], [1::nat]]"
  have h: "?bs \<noteq> []" "\<forall>b \<in> set ?bs. distinct b" by simp_all
  have b: "\<forall>c < length ?bs. round_double (of_nat c / of_nat (length ?bs)) < 1"
    by (intro allI impI round_double_below_1) simp_all
  from min_sup_one [OF h round_double_1 b]
  obtain T where T: "get_frequent_itemsets round_double ?bs 1 = Some (Inr T)"
    "\<And>S. map_of T S =
        (if is_itemset S \<and> (\<forall>b \<in> set ?bs. set S \<subseteq> set b) then Some 1 else None)"
    by blast
  have "is_itemset [1::nat]" "is_itemset [2::nat]" by code_simp+
  then have "map_of T [1] = Some 1" "map_of T [2] = None" unfolding T(2) by simp_all
  moreover from this have "T \<noteq> []" by auto
  ultimately show ?thesis using T(1) by blast
qed

text \<open>The claim as it is written fails: item 2 is absent from the second basket, the two
  baskets differ, and the table mined with minimum support 1 is not empty.\<close>

theorem min_sup_one_counterexample:
  "2 \<in> set [1, 2::nat] \<and> 2 \<notin> set [1::nat] \<and> [1, 2] \<noteq> [1::nat] \<and>
   get_frequent_itemsets round_double [[1, 2], [1::nat]] 1 = Some (Inr [([1], 1)])"
  by code_simp

section \<open>Termination and the absence of input validation\<close>

lemma loop_levels:
  fixes baskets :: "'a::linorder basket list"
  shows "\<exists>Ls. level_chain rnd baskets ms k (L # Ls) \<and>
     apriori_loop rnd baskets ms L k sd = Some (Inr (fold (\<lambda>L sd. dict_update sd L) Ls sd))"
proof (induction "(if L = [] then 0 else 1) + (maxlen baskets + 1 - k)"
    arbitrary: L k sd rule: less_induct)
  case less
  show ?case
  proof (cases "L = []")
    case True
    then have "level_chain rnd baskets ms k (L # []) \<and>
      apriori_loop rnd baskets ms L k sd = Some (Inr (fold (\<lambda>L sd. dict_update sd L) [] sd))"
      by (subst apriori_loop.simps) simp
    then show ?thesis ..
  next
    case False
    obtain L' where L': "next_level rnd baskets ms L k = Inr L'"
      using next_level_total by blast
    have "(if L' = [] then 0 else 1) + (maxlen baskets + 1 - (k + 1))
        < (if L = [] then 0 else 1) + (maxlen baskets + 1 - k)"
    proof (cases "maxlen baskets < k")
      case True
      with L' have "L' = []" by (rule next_level_empty)
      with False show ?thesis by simp
    next
      case False
      with \<open>L \<noteq> []\<close> show ?thesis by auto
    qed
    from less.hyps [OF this, of "dict_update sd L'"]
    obtain Ls where Ls: "level_chain rnd baskets ms (k + 1) (L' # Ls)"
      "apriori_loop rnd baskets ms L' (k + 1) (dict_update sd L') =
         Some (Inr (fold (\<lambda>L sd. dict_update sd L) Ls (dict_update sd L')))"
      by blast
    from False L' Ls(1) have "level_chain rnd baskets ms k (L # L' # Ls)" by simp
    moreover from False L' Ls(2)
    have "apriori_loop rnd baskets ms L k sd =
        Some (Inr (fold (\<lambda>L sd. dict_update sd L) (L' # Ls) sd))"
      by (subst apriori_loop.simps) simp
    ultimately show ?thesis by blast
  qed
qed

text \<open>
  C4 (termination). For every sequence of baskets and every minimum support the loop
  terminates: there is a finite chain of levels, the first computed from the item counts,
  each next one computed by one round of the loop from a non-empty level, and the last one
  empty; the miner returns the table in which all these levels have been merged.
\<close>

theorem miner_terminates:
  fixes baskets :: "'a::linorder basket list"
  shows "\<exists>L1 Ls. frequent rnd (length baskets) min_sup (count_items baskets) = Inr L1 \<and>
     level_chain rnd baskets min_sup 2 (L1 # Ls) \<and>
     get_frequent_itemsets rnd baskets min_sup =
       Some (Inr (fold (\<lambda>L support_data. dict_update support_data L) (L1 # Ls) []))"
proof -
  from first_level_total [of rnd baskets min_sup]
  obtain L1 where L1: "frequent rnd (length baskets) min_sup (count_items baskets) = Inr L1"
    by blast
  from loop_levels [of rnd baskets min_sup 2 L1 "dict_update [] L1"]
  obtain Ls where "level_chain rnd baskets min_sup 2 (L1 # Ls)"
    "apriori_loop rnd baskets min_sup L1 2 (dict_update [] L1) =
       Some (Inr (fold (\<lambda>L sd. dict_update sd L) Ls (dict_update [] L1)))"
    by blast
  with L1 show ?thesis
    unfolding get_frequent_itemsets_def by auto
qed

theorem miner_terminates_witness:
  "\<exists>L1 Ls. level_chain round_double [[1, 2], [1, 2, 3], [1], [2, 3], [1, 2, 3::nat]]
        (round_double (3 / 5)) 2 (L1 # Ls) \<and>
     get_frequent_itemsets round_double [[1, 2], [1, 2, 3], [1], [2, 3], [1, 2, 3::nat]]
        (round_double (3 / 5)) =
       Some (Inr (fold (\<lambda>L support_data. dict_update support_data L) (L1 # Ls) []))"
  using miner_terminates [of round_double "[[1, 2], [1, 2, 3], [1], [2, 3], [1, 2, 3::nat]]"
      "round_double (3 / 5)"]
  by blast

text \<open>
  C5, as amended (no validation). The miner does not validate its inputs: for every minimum
  support, inside (0,1] or not, and every sequence of baskets, empty or not, it returns a
  support table and raises no error; for an empty sequence of baskets the table is empty.
\<close>

theorem miner_no_validation:
  fixes baskets :: "'a::linorder basket list"
  shows "(\<exists>T. get_frequent_itemsets rnd baskets min_sup = Some (Inr T)) \<and>
     get_frequent_itemsets rnd ([] :: 'a basket list) min_sup = Some (Inr [])"
proof
  from first_level_total [of rnd baskets min_sup]
  obtain L1 where "frequent rnd (length baskets) min_sup (count_items baskets) = Inr L1"
    by blast
  then show "\<exists>T. get_frequent_itemsets rnd baskets min_sup = Some (Inr T)"
    unfolding get_frequent_itemsets_def
    using apriori_loop_returns [of rnd baskets min_sup L1 2 "dict_update [] L1"] by simp
  show "get_frequent_itemsets rnd ([] :: 'a basket list) min_sup = Some (Inr [])"
    unfolding get_frequent_itemsets_def
    by (simp add: apriori_loop.simps dict_update_def)
qed

theorem miner_no_validation_witness:
  "(\<exists>T. get_frequent_itemsets round_double [[1::nat]] 2 = Some (Inr T)) \<and>
   get_frequent_itemsets round_double ([] :: nat basket list) 2 = Some (Inr [])"
  by (rule miner_no_validation)

text \<open>The claim as it is written fails: an empty collection of baskets, a minimum support
  above 1 and a minimum support of 0 all give a table, not an error.\<close>

theorem invalid_input_counterexample:
  "get_frequent_itemsets round_double ([] :: nat basket list) (1 / 2) = Some (Inr []) \<and>
   get_frequent_itemsets round_double [[1::nat]] 2 = Some (Inr []) \<and>
   get_frequent_itemsets round_double [[1::nat]] 0 = Some (Inr [([1], 1)])"
  by code_simp

end
